theory Spec2Isabelle
  imports Main
begin

section \<open>Data model of \<open>validate_graph.py\<close>\<close>

text \<open>
  A module's \<open>METADATA\<close> is a Python dict read with \<open>.get\<close>; a missing key is
  \<open>None\<close>. Only the four keys the graph validator reads are kept. The registry
  \<open>modules\<close> is a dict from module id to metadata, iterated in insertion order: an
  association list. Python's \<open>int\<close> is unbounded: \<open>int\<close>.
\<close>

record metadata =
  title :: "string option"
  bloom_level :: "string option"
  scaffolding_level :: "string option"
  prerequisites :: "int list option"

type_synonym registry = "(int \<times> metadata) list"

text \<open>The exceptions the modelled code can raise.\<close>

datatype py_error = KeyError | ValueError | ImportError | OtherException

text \<open>
  The validators return lists of message strings. Each message is an f-string of a
  fixed shape; a finding keeps the shape as the constructor and the interpolated values
  as its arguments.
\<close>

datatype finding =
    DanglingPrerequisite int string int
  | CircularDependency int string
  | NoFoundationModules
  | UnreachableModules "(int \<times> string) list" "int list"
  | ProgressionViolation int string "string option" "string option"
      "string option" "string option" int

definition BLOOM_ORDER :: "string list" where
  "BLOOM_ORDER = [''Remember'', ''Understand'', ''Apply'', ''Analyze'', ''Evaluate'', ''Create'']"

definition SCAFFOLDING_VALUE :: "(string \<times> int) list" where
  "SCAFFOLDING_VALUE = [(''HIGH'', 3), (''MEDIUM'', 2), (''LOW'', 1)]"

definition get_title :: "metadata \<Rightarrow> string" where
  \<comment> \<open>\<open>metadata.get('title', 'Unknown')\<close>\<close>
  "get_title m = (case title m of None \<Rightarrow> ''Unknown'' | Some t \<Rightarrow> t)"

definition get_prerequisites :: "metadata \<Rightarrow> int list" where
  \<comment> \<open>\<open>metadata.get('prerequisites', [])\<close>\<close>
  "get_prerequisites m = (case prerequisites m of None \<Rightarrow> [] | Some ps \<Rightarrow> ps)"

section \<open>\<open>validate_prerequisite_references\<close>\<close>


section \<open>\<open>detect_cycles\<close>\<close>

text \<open>
  \<open>graph = {mid: set(m.get('prerequisites', [])) ...}\<close>. The depth-first search
  iterates over each prerequisite set, in an order Python does not specify; the order
  is a parameter \<open>ord\<close> of the model, which turns the prerequisite list into the
  sequence in which the set is iterated.
\<close>

type_synonym graph = "(int \<times> int list) list"

definition set_iteration :: "(int list \<Rightarrow> int list) \<Rightarrow> bool" where
  "set_iteration ord \<longleftrightarrow> (\<forall>xs. set (ord xs) = set xs \<and> distinct (ord xs))"

definition build_graph :: "(int list \<Rightarrow> int list) \<Rightarrow> registry \<Rightarrow> graph" where
  "build_graph ord modules = map (\<lambda>(mid, m). (mid, ord (get_prerequisites m))) modules"

definition graph_get :: "graph \<Rightarrow> int \<Rightarrow> int list" where
  \<comment> \<open>\<open>graph.get(node, [])\<close>\<close>
  "graph_get graph node = (case map_of graph node of None \<Rightarrow> [] | Some ns \<Rightarrow> ns)"

definition graph_nodes :: "graph \<Rightarrow> int set" where
  "graph_nodes graph = set (map fst graph) \<union> (\<Union>(k, ns) \<in> set graph. set ns)"

text \<open>
  \<open>has_cycle\<close> mutates the two sets \<open>visited\<close> and \<open>rec_stack\<close>; the model passes
  them in and returns them with the result. \<open>for_neighbors\<close> is the \<open>for\<close> loop of
  its body. \<open>rec_stack.remove(node)\<close> raises \<open>KeyError\<close> when the node is absent.
  The recursion is as deep as the graph requires: the recursion limit of the Python
  interpreter is not part of the model.
\<close>

function has_cycle :: "graph \<Rightarrow> int \<Rightarrow> int set \<times> int set \<Rightarrow> py_error + bool \<times> int set \<times> int set"
  and for_neighbors :: "graph \<Rightarrow> int list \<Rightarrow> int set \<times> int set \<Rightarrow> py_error + bool \<times> int set \<times> int set"
where
  "has_cycle graph node (visited, rec_stack) =
     (case for_neighbors graph (graph_get graph node) (insert node visited, insert node rec_stack) of
        Inl e \<Rightarrow> Inl e
      | Inr (True, visited', rec_stack') \<Rightarrow> Inr (True, visited', rec_stack')
      | Inr (False, visited', rec_stack') \<Rightarrow>
          (if node \<in> rec_stack' then Inr (False, visited', rec_stack' - {node})
           else Inl KeyError))"
| "for_neighbors graph [] (visited, rec_stack) = Inr (False, visited, rec_stack)"
| "for_neighbors graph (neighbor # rest) (visited, rec_stack) =
     (if neighbor \<notin> visited then
        (case has_cycle graph neighbor (visited, rec_stack) of
           Inl e \<Rightarrow> Inl e
         | Inr (True, visited', rec_stack') \<Rightarrow> Inr (True, visited', rec_stack')
         | Inr (False, visited', rec_stack') \<Rightarrow> for_neighbors graph rest (visited', rec_stack'))
      else if neighbor \<in> rec_stack then Inr (True, visited, rec_stack)
      else for_neighbors graph rest (visited, rec_stack))"
  by pat_completeness auto

lemma visited_grows_dom:
  "has_cycle_for_neighbors_dom (Inl (graph, node, s)) \<Longrightarrow>
     has_cycle graph node s = Inr (b, v, r) \<Longrightarrow> fst s \<subseteq> v"
  "has_cycle_for_neighbors_dom (Inr (graph, ns, s)) \<Longrightarrow>
     for_neighbors graph ns s = Inr (b, v, r) \<Longrightarrow> fst s \<subseteq> v"
proof (induction graph node s and graph ns s arbitrary: b v r and b v r
    rule: has_cycle_for_neighbors.pinduct)
  case (1 graph node visited rec_stack)
  from 1(3) 1(1) obtain b' r' where
    "for_neighbors graph (graph_get graph node) (insert node visited, insert node rec_stack)
       = Inr (b', v, r')"
    by (auto simp: has_cycle.psimps split: sum.splits prod.splits bool.splits if_splits)
  from 1(2)[OF this] show ?case by simp
next
  case (2 graph visited rec_stack)
  then show ?case by (simp add: for_neighbors.psimps)
next
  case (3 graph neighbor rest visited rec_stack)
  show ?case
  proof (cases "neighbor \<in> visited")
    case True
    show ?thesis
    proof (cases "neighbor \<in> rec_stack")
      case in_stack: True
      with True 3(1,5) show ?thesis by (simp add: for_neighbors.psimps)
    next
      case off_stack: False
      with True 3(1,5) have "for_neighbors graph rest (visited, rec_stack) = Inr (b, v, r)"
        by (simp add: for_neighbors.psimps)
      from 3(4)[OF _ off_stack this] True show ?thesis by simp
    qed
  next
    case False
    with 3(1,5) obtain b1 v1 r1 where
      hc: "has_cycle graph neighbor (visited, rec_stack) = Inr (b1, v1, r1)"
      by (auto simp: for_neighbors.psimps split: sum.splits)
    from 3(2)[OF False hc] have sub: "visited \<subseteq> v1" by simp
    show ?thesis
    proof (cases b1)
      case True
      with False hc sub 3(1,5) show ?thesis by (simp add: for_neighbors.psimps)
    next
      case nb: False
      with False hc 3(1,5) have "for_neighbors graph rest (v1, r1) = Inr (b, v, r)"
        by (simp add: for_neighbors.psimps)
      from nb have "b1 = False" by simp
      from 3(3)[OF False hc refl this refl \<open>for_neighbors graph rest (v1, r1) = Inr (b, v, r)\<close>] sub
      show ?thesis by auto
    qed
  qed
qed

lemma graph_get_nodes: "n \<in> set (graph_get graph node) \<Longrightarrow> n \<in> graph_nodes graph"
proof -
  assume "n \<in> set (graph_get graph node)"
  then obtain ns where "map_of graph node = Some ns" "n \<in> set ns"
    by (cases "map_of graph node") (auto simp: graph_get_def)
  then have "(node, ns) \<in> set graph" by (auto dest: map_of_SomeD)
  with \<open>n \<in> set ns\<close> show ?thesis unfolding graph_nodes_def by blast
qed

lemma graph_get_outside: "node \<notin> graph_nodes graph \<Longrightarrow> graph_get graph node = []"
  by (auto simp: graph_get_def graph_nodes_def split: option.splits dest!: map_of_SomeD)
     (metis fst_conv imageI)

lemma finite_graph_nodes: "finite (graph_nodes graph)"
  by (auto simp: graph_nodes_def)

termination has_cycle
proof (relation "inv_image (less_than <*lex*> less_than)
    (\<lambda>x. case x of
       Inl (graph, node, (visited, rec_stack)) \<Rightarrow>
         (card (graph_nodes graph - insert node visited), 2 * length (graph_get graph node) + 1)
     | Inr (graph, ns, (visited, rec_stack)) \<Rightarrow>
         (card (graph_nodes graph - visited), 2 * length ns))", goal_cases)
  case 1
  then show ?case by (intro wf_inv_image wf_lex_prod wf_less_than)
next
  case (2 graph node visited rec_stack)
  then show ?case by simp
next
  case (3 graph neighbor rest visited rec_stack)
  show ?case
  proof (cases "neighbor \<in> graph_nodes graph")
    case True
    with 3 have "graph_nodes graph - insert neighbor visited \<subset> graph_nodes graph - visited"
      by auto
    then have "card (graph_nodes graph - insert neighbor visited)
        < card (graph_nodes graph - visited)"
      by (intro psubset_card_mono) (auto simp: finite_graph_nodes)
    then show ?thesis by simp
  next
    case False
    then have "graph_nodes graph - insert neighbor visited = graph_nodes graph - visited"
      by auto
    with False show ?thesis by (simp add: graph_get_outside)
  qed
next
  case (4 graph neighbor rest visited rec_stack res b_res s_res v1 r1)
  from 4(2,3,4,5) have "has_cycle graph neighbor (visited, rec_stack) = Inr (False, v1, r1)"
    by auto
  from visited_grows_dom(1)[OF 4(6) this] have "visited \<subseteq> v1" by simp
  then have "card (graph_nodes graph - v1) \<le> card (graph_nodes graph - visited)"
    by (intro card_mono) (auto simp: finite_graph_nodes)
  with 4(5) show ?case by auto
next
  case (5 graph neighbor rest visited rec_stack)
  then show ?case by simp
qed

declare has_cycle.simps [simp del]

text \<open>
  The outer loop of \<open>detect_cycles\<close> over the keys of \<open>graph\<close>: \<open>visited\<close> is shared
  by all traversals, each traversal starts with a fresh \<open>rec_stack\<close>, and a traversal
  that returns \<open>True\<close> appends one message naming the module the traversal started from.
  \<open>modules[module_id]\<close> raises \<open>KeyError\<close> for a missing key.
\<close>

fun cycle_scan :: "graph \<Rightarrow> registry \<Rightarrow> int list \<Rightarrow> int set \<Rightarrow> finding list
    \<Rightarrow> py_error + finding list" where
  "cycle_scan graph modules [] visited errors = Inr errors"
| "cycle_scan graph modules (module_id # rest) visited errors =
     (if module_id \<notin> visited then
        (case has_cycle graph module_id (visited, {}) of
           Inl e \<Rightarrow> Inl e
         | Inr (True, visited', rec_stack') \<Rightarrow>
             (case map_of modules module_id of
                None \<Rightarrow> Inl KeyError
              | Some m \<Rightarrow> cycle_scan graph modules rest visited'
                  (errors @ [CircularDependency module_id (get_title m)]))
         | Inr (False, visited', rec_stack') \<Rightarrow> cycle_scan graph modules rest visited' errors)
      else cycle_scan graph modules rest visited errors)"

definition detect_cycles :: "(int list \<Rightarrow> int list) \<Rightarrow> registry \<Rightarrow> py_error + finding list" where
  "detect_cycles ord modules =
     (let graph = build_graph ord modules
      in cycle_scan graph modules (map fst graph) {} [])"

section \<open>\<open>detect_orphans\<close>\<close>

text \<open>
  Here the prerequisite sets are only tested with \<open>issubset\<close> and for emptiness, so they
  are kept as sets. \<open>sweep\<close> is one execution of the \<open>for\<close> loop inside the
  \<open>while changed\<close> loop; \<open>expand\<close> is the \<open>while\<close> loop. Its third argument counts
  the executions of the loop body; the source keeps no such counter, it is there to state
  how many passes the loop makes.
\<close>

type_synonym set_graph = "(int \<times> int set) list"

fun sweep :: "set_graph \<Rightarrow> int set \<Rightarrow> bool \<Rightarrow> int set \<times> bool" where
  "sweep [] reachable changed = (reachable, changed)"
| "sweep ((mid, prereqs) # rest) reachable changed =
     (if mid \<notin> reachable \<and> prereqs \<subseteq> reachable
      then sweep rest (insert mid reachable) True
      else sweep rest reachable changed)"

lemma sweep_grows:
  "sweep graph reachable changed = (reachable', changed') \<Longrightarrow>
     reachable \<subseteq> reachable' \<and> reachable' \<subseteq> reachable \<union> fst ` set graph \<and>
     (changed' \<longleftrightarrow> changed \<or> reachable \<subset> reachable')"
proof (induction graph reachable changed rule: sweep.induct)
  case (1 reachable changed)
  then show ?case by auto
next
  case (2 mid prereqs rest reachable changed)
  show ?case
  proof (cases "mid \<notin> reachable \<and> prereqs \<subseteq> reachable")
    case True
    with 2 have "insert mid reachable \<subseteq> reachable'
        \<and> reachable' \<subseteq> insert mid reachable \<union> fst ` set rest
        \<and> (changed' \<longleftrightarrow> True \<or> insert mid reachable \<subset> reachable')"
      by simp
    with True show ?thesis by auto
  next
    case False
    with 2 have "reachable \<subseteq> reachable' \<and> reachable' \<subseteq> reachable \<union> fst ` set rest
        \<and> (changed' \<longleftrightarrow> changed \<or> reachable \<subset> reachable')"
      by auto
    then show ?thesis by auto
  qed
qed

function expand :: "set_graph \<Rightarrow> int set \<Rightarrow> nat \<Rightarrow> int set \<times> nat" where
  "expand graph reachable passes =
     (case sweep graph reachable False of
        (reachable', changed) \<Rightarrow>
          if changed then expand graph reachable' (Suc passes)
          else (reachable', Suc passes))"
  by pat_completeness auto
termination expand
proof (relation "measure (\<lambda>(graph, reachable, passes). card (fst ` set graph - reachable))",
    goal_cases)
  case 1
  then show ?case by simp
next
  case (2 graph reachable passes reachable' changed)
  then have sw: "sweep graph reachable False = (reachable', True)" by simp
  from sweep_grows[OF sw] have "reachable \<subset> reachable'"
    and "reachable' \<subseteq> reachable \<union> fst ` set graph" by auto
  then have "fst ` set graph - reachable' \<subset> fst ` set graph - reachable" by blast
  then have "card (fst ` set graph - reachable') < card (fst ` set graph - reachable)"
    by (intro psubset_card_mono) auto
  then show ?case by simp
qed

declare expand.simps [simp del]

fun orphan_details :: "registry \<Rightarrow> int list \<Rightarrow> py_error + (int \<times> string) list" where
  "orphan_details modules [] = Inr []"
| "orphan_details modules (mid # rest) =
     (case map_of modules mid of
        None \<Rightarrow> Inl KeyError
      | Some m \<Rightarrow>
          (case orphan_details modules rest of
             Inl e \<Rightarrow> Inl e
           | Inr details \<Rightarrow> Inr ((mid, get_title m) # details)))"

definition build_set_graph :: "registry \<Rightarrow> set_graph" where
  "build_set_graph modules = map (\<lambda>(mid, m). (mid, set (get_prerequisites m))) modules"

definition foundation_modules :: "set_graph \<Rightarrow> int set" where
  "foundation_modules graph = set (map fst (filter (\<lambda>(mid, prereqs). prereqs = {}) graph))"

definition reachable_modules :: "set_graph \<Rightarrow> int set" where
  "reachable_modules graph = fst (expand graph (foundation_modules graph) 0)"

definition detect_orphans :: "registry \<Rightarrow> py_error + finding list" where
  "detect_orphans modules =
     (let graph = build_set_graph modules
      in if foundation_modules graph = {} then Inr [NoFoundationModules]
         else
           let reachable = reachable_modules graph;
               orphaned = set (map fst graph) - reachable
           in if orphaned = {} then Inr []
              else
                (case orphan_details modules (sorted_list_of_set orphaned) of
                   Inl e \<Rightarrow> Inl e
                 | Inr details \<Rightarrow>
                     Inr [UnreachableModules details
                            (sorted_list_of_set (foundation_modules graph))]))"

section \<open>\<open>validate_progression_rules\<close>\<close>

definition list_index :: "'a list \<Rightarrow> 'a \<Rightarrow> nat" where
  \<comment> \<open>\<open>xs.index(x)\<close>, used only after \<open>x in xs\<close> has been checked\<close>
  "list_index xs x = length (takeWhile (\<lambda>y. y \<noteq> x) xs)"

definition in_bloom_order :: "string option \<Rightarrow> bool" where
  "in_bloom_order level = (case level of None \<Rightarrow> False | Some s \<Rightarrow> s \<in> set BLOOM_ORDER)"

definition bloom_index :: "string option \<Rightarrow> nat" where
  "bloom_index level = (case level of None \<Rightarrow> length BLOOM_ORDER | Some s \<Rightarrow> list_index BLOOM_ORDER s)"

definition scaffolding_value :: "string option \<Rightarrow> int option" where
  "scaffolding_value level = (case level of None \<Rightarrow> None | Some s \<Rightarrow> map_of SCAFFOLDING_VALUE s)"

definition progression_edge :: "registry \<Rightarrow> int \<Rightarrow> metadata \<Rightarrow> int \<Rightarrow> finding list" where
  "progression_edge modules module_id module prereq_id =
     (case map_of modules prereq_id of
        None \<Rightarrow> []
      | Some prereq \<Rightarrow>
          let curr_bloom = bloom_level module;
              prereq_bloom = bloom_level prereq
          in if \<not> in_bloom_order curr_bloom \<or> \<not> in_bloom_order prereq_bloom then []
             else
               let curr_bloom_idx = bloom_index curr_bloom;
                   prereq_bloom_idx = bloom_index prereq_bloom;
                   curr_scaffolding = scaffolding_level module;
                   prereq_scaffolding = scaffolding_level prereq
               in (case (scaffolding_value curr_scaffolding, scaffolding_value prereq_scaffolding) of
                     (Some curr_scaffolding_val, Some prereq_scaffolding_val) \<Rightarrow>
                       if curr_bloom_idx > prereq_bloom_idx
                          \<and> curr_scaffolding_val < prereq_scaffolding_val
                       then [ProgressionViolation module_id (get_title module)
                               prereq_bloom curr_bloom prereq_scaffolding curr_scaffolding
                               prereq_id]
                       else []
                   | _ \<Rightarrow> []))"

definition validate_progression_rules :: "registry \<Rightarrow> finding list" where
  "validate_progression_rules modules =
     concat (map (\<lambda>(module_id, module).
       concat (map (progression_edge modules module_id module) (get_prerequisites module)))
       modules)"

section \<open>\<open>discover_modules\<close>\<close>

text \<open>
  The file system is the input: the sorted list of the \<open>module_*\<close> entries of the
  directory, each with what loading its \<open>metadata.py\<close> gives. \<open>try_load\<close> is the
  body of the \<open>try\<close> block; the \<open>except Exception\<close> clause around it is in
  \<open>load_loop\<close>.
\<close>

datatype metadata_py =
    NoSpec
  | ExecRaises
  | NoMETADATA
  | METADATA "int option" metadata

datatype dir_content = NotDir | NoMetadataPy | MetadataPy metadata_py

datatype warning =
    MissingMetadataPy string
  | FailedToLoad string
  | MissingMETADATA string
  | MissingId string
  | ErrorLoading string py_error

datatype load_step = Skipped warning | Raised py_error | Stored int metadata

definition try_load :: "registry \<Rightarrow> string \<Rightarrow> metadata_py \<Rightarrow> load_step" where
  "try_load modules name py =
     (case py of
        NoSpec \<Rightarrow> Skipped (FailedToLoad name)
      | ExecRaises \<Rightarrow> Raised OtherException
      | NoMETADATA \<Rightarrow> Skipped (MissingMETADATA name)
      | METADATA None metadata \<Rightarrow> Skipped (MissingId name)
      | METADATA (Some module_id) metadata \<Rightarrow>
          if map_of modules module_id \<noteq> None then Raised ValueError
          else Stored module_id metadata)"

fun load_loop :: "(string \<times> dir_content) list \<Rightarrow> registry \<times> warning list
    \<Rightarrow> registry \<times> warning list" where
  "load_loop [] st = st"
| "load_loop ((name, NotDir) # rest) (modules, warnings) = load_loop rest (modules, warnings)"
| "load_loop ((name, NoMetadataPy) # rest) (modules, warnings) =
     load_loop rest (modules, warnings @ [MissingMetadataPy name])"
| "load_loop ((name, MetadataPy py) # rest) (modules, warnings) =
     (case try_load modules name py of
        Skipped w \<Rightarrow> load_loop rest (modules, warnings @ [w])
      | Raised e \<Rightarrow> load_loop rest (modules, warnings @ [ErrorLoading name e])
      | Stored module_id metadata \<Rightarrow>
          load_loop rest (modules @ [(module_id, metadata)], warnings))"

definition discover_modules :: "(string \<times> dir_content) list
    \<Rightarrow> py_error + registry \<times> warning list" where
  "discover_modules module_dirs =
     (if module_dirs = [] then Inl ValueError
      else Inr (load_loop module_dirs ([], [])))"

section \<open>\<open>format_validation_report\<close> and \<open>main\<close>\<close>







section \<open>What a list of findings reports\<close>

text \<open>
  The module ids named by the circular-dependency messages, and the module ids listed
  as unreachable, of a list of findings.
\<close>

fun circular_of :: "finding \<Rightarrow> int list" where
  "circular_of (CircularDependency module_id t) = [module_id]"
| "circular_of _ = []"

definition circular_ids :: "finding list \<Rightarrow> int set" where
  "circular_ids fs = set (concat (map circular_of fs))"

fun orphans_of :: "finding \<Rightarrow> int list" where
  "orphans_of (UnreachableModules details foundation) = map fst details"
| "orphans_of _ = []"

definition orphaned_ids :: "finding list \<Rightarrow> int set" where
  "orphaned_ids fs = set (concat (map orphans_of fs))"

definition bare_module :: "int list \<Rightarrow> metadata" where
  \<comment> \<open>a metadata dict with only the \<open>prerequisites\<close> key, for the examples\<close>
  "bare_module ps =
     \<lparr>title = None, bloom_level = None, scaffolding_level = None, prerequisites = Some ps\<rparr>"

text \<open>
  The (module, prerequisite) pairs named by the progression messages, the findings a
  report lists, and a metadata dict with both levels set, for the examples.
\<close>

fun violation_of :: "finding \<Rightarrow> (int \<times> int) list" where
  "violation_of (ProgressionViolation module_id t pb cb ps cs prereq_id) = [(module_id, prereq_id)]"
| "violation_of _ = []"

definition violation_edges :: "finding list \<Rightarrow> (int \<times> int) set" where
  "violation_edges fs = set (concat (map violation_of fs))"



definition levelled_module :: "string \<Rightarrow> string \<Rightarrow> int list \<Rightarrow> metadata" where
  "levelled_module bloom scaffolding ps =
     \<lparr>title = None, bloom_level = Some bloom, scaffolding_level = Some scaffolding,
      prerequisites = Some ps\<rparr>"

text \<open>
  The prerequisite relation of a registry: an edge from each module to each entry of its
  prerequisite list. A module is reachable by prerequisite hops when a chain of such
  edges leads from it to a foundation module. The completable modules are the least set
  that holds a module as soon as it holds all its prerequisites.
\<close>

definition prereq_edges :: "registry \<Rightarrow> (int \<times> int) set" where
  "prereq_edges modules =
     set (concat (map (\<lambda>(M, m). map (\<lambda>P. (M, P)) (get_prerequisites m)) modules))"

definition hop_reachable :: "registry \<Rightarrow> int \<Rightarrow> bool" where
  "hop_reachable modules M \<longleftrightarrow>
     (\<exists>F \<in> foundation_modules (build_set_graph modules). (M, F) \<in> (prereq_edges modules)\<^sup>*)"

inductive_set completable :: "registry \<Rightarrow> int set" for modules :: registry where
  "(M, m) \<in> set modules \<Longrightarrow> (\<forall>P \<in> set (get_prerequisites m). P \<in> completable modules)
     \<Longrightarrow> M \<in> completable modules"

text \<open>
  The edges between registry modules only, and the edges of the adjacency structure that
  \<open>has_cycle\<close> walks. The invariant of one traversal started with \<open>visited = V0\<close>:
  the nodes it has finished (visited, off the stack, not in \<open>V0\<close>) have all their
  successors visited and off the stack, and lie on no cycle that stays outside \<open>V0\<close>.
  A set of modules is covered by a set of reported ones when each of its modules that
  lies on a cycle can be reached from a reported one.
\<close>

definition registry_edges :: "registry \<Rightarrow> (int \<times> int) set" where
  "registry_edges modules =
     Set.filter (\<lambda>(M, P). P \<in> fst ` set modules) (prereq_edges modules)"

definition edges :: "graph \<Rightarrow> (int \<times> int) set" where
  "edges graph = {(u, v). v \<in> set (graph_get graph u)}"

definition avoiding :: "(int \<times> int) set \<Rightarrow> int set \<Rightarrow> (int \<times> int) set" where
  "avoiding E V0 = {(u, v). (u, v) \<in> E \<and> u \<notin> V0 \<and> v \<notin> V0}"

definition dfs_inv :: "(int \<times> int) set \<Rightarrow> int set \<Rightarrow> int set \<Rightarrow> int set \<Rightarrow> bool" where
  "dfs_inv E V0 v s \<longleftrightarrow>
     V0 \<subseteq> v \<and> s \<subseteq> v \<and> s \<inter> V0 = {}
     \<and> (\<forall>b w. b \<in> v - s - V0 \<and> (b, w) \<in> E \<longrightarrow> w \<in> v - s)
     \<and> (\<forall>b \<in> v - s - V0. (b, b) \<notin> (avoiding E V0)\<^sup>+)"

definition covered :: "(int \<times> int) set \<Rightarrow> int set \<Rightarrow> int set \<Rightarrow> bool" where
  "covered E V R \<longleftrightarrow> (\<forall>c \<in> V. (c, c) \<in> E\<^sup>+ \<longrightarrow> (\<exists>r \<in> R. (r, c) \<in> E\<^sup>*))"



section \<open>The checks never raise\<close>

lemma has_cycle_no_error:
  "\<exists>b v' s'. has_cycle graph node (v, s) = Inr (b, v', s') \<and> insert node v \<subseteq> v'
      \<and> (s \<inter> v) - {node} \<subseteq> s' \<and> (\<not> b \<longrightarrow> s' \<subseteq> s - {node})"
  "\<exists>b v' s'. for_neighbors graph ns (v, s) = Inr (b, v', s') \<and> v \<subseteq> v'
      \<and> s \<inter> v \<subseteq> s' \<and> (\<not> b \<longrightarrow> s' \<subseteq> s)"
proof (induction graph node "(v, s)" and graph ns "(v, s)" arbitrary: v s and v s
    rule: has_cycle_for_neighbors.induct)
  case (1 graph node visited rec_stack)
  from 1 obtain b v' s' where
    fn: "for_neighbors graph (graph_get graph node) (insert node visited, insert node rec_stack)
          = Inr (b, v', s')"
    and sub: "insert node visited \<subseteq> v'"
    and keep: "insert node rec_stack \<inter> insert node visited \<subseteq> s'"
    and shr: "\<not> b \<longrightarrow> s' \<subseteq> insert node rec_stack"
    by blast
  from keep have "node \<in> s'" by auto
  show ?case
  proof (cases b)
    case True
    with fn have "has_cycle graph node (visited, rec_stack) = Inr (True, v', s')"
      by (simp add: has_cycle.simps)
    with sub keep show ?thesis by auto
  next
    case False
    with fn \<open>node \<in> s'\<close> have
      "has_cycle graph node (visited, rec_stack) = Inr (False, v', s' - {node})" by (simp add: has_cycle.simps)
    with sub keep shr False show ?thesis by auto
  qed
next
  case (2 graph visited rec_stack)
  show ?case by (rule exI[of _ False]) simp
next
  case (3 graph neighbor rest visited rec_stack)
  show ?case
  proof (cases "neighbor \<in> visited")
    case True
    show ?thesis
    proof (cases "neighbor \<in> rec_stack")
      case in_stack: True
      with True show ?thesis by (intro exI[of _ True]) simp
    next
      case off_stack: False
      from 3(3)[OF _ off_stack] True off_stack show ?thesis by simp
    qed
  next
    case False
    from 3(1)[OF False] obtain b1 v1 s1 where
      hc: "has_cycle graph neighbor (visited, rec_stack) = Inr (b1, v1, s1)"
      and sub: "insert neighbor visited \<subseteq> v1"
      and keep: "(rec_stack \<inter> visited) - {neighbor} \<subseteq> s1"
      and shr: "\<not> b1 \<longrightarrow> s1 \<subseteq> rec_stack - {neighbor}"
      by blast
    show ?thesis
    proof (cases b1)
      case True
      with False hc sub keep show ?thesis by auto
    next
      case nb: False
      then have b1f: "b1 = False" by simp
      from 3(2)[OF False hc refl b1f refl] obtain b v' s' where
        fn: "for_neighbors graph rest (v1, s1) = Inr (b, v', s')"
        and sub': "v1 \<subseteq> v'" and keep': "s1 \<inter> v1 \<subseteq> s'" and shr': "\<not> b \<longrightarrow> s' \<subseteq> s1"
        by blast
      from False hc b1f fn have
        "for_neighbors graph (neighbor # rest) (visited, rec_stack) = Inr (b, v', s')" by simp
      moreover from sub sub' have "visited \<subseteq> v'" by auto
      moreover from False keep sub keep' have "rec_stack \<inter> visited \<subseteq> s'" by auto
      moreover from shr shr' nb have "\<not> b \<longrightarrow> s' \<subseteq> rec_stack" by auto
      ultimately show ?thesis by blast
    qed
  qed
qed

lemma map_of_key: "k \<in> fst ` set xs \<Longrightarrow> \<exists>v. map_of xs k = Some v"
  by (cases "map_of xs k") (auto simp: map_of_eq_None_iff)

lemma cycle_scan_total:
  "set keys \<subseteq> fst ` set modules \<Longrightarrow>
     \<exists>fs. cycle_scan graph modules keys visited errors = Inr fs
        \<and> circular_ids fs \<subseteq> circular_ids errors \<union> set keys"
proof (induction keys arbitrary: visited errors)
  case Nil
  then show ?case by simp
next
  case (Cons k keys)
  from Cons.prems have sub: "set keys \<subseteq> fst ` set modules" and k: "k \<in> fst ` set modules"
    by simp_all
  from map_of_key[OF k] obtain m where m: "map_of modules k = Some m" by blast
  show ?case
  proof (cases "k \<in> visited")
    case True
    from Cons.IH[OF sub, of visited errors] obtain fs where
      "cycle_scan graph modules keys visited errors = Inr fs"
      "circular_ids fs \<subseteq> circular_ids errors \<union> set keys" by blast
    with True show ?thesis by (intro exI[of _ fs]) (simp, blast)
  next
    case False
    from has_cycle_no_error(1)[of graph k visited "{}"] obtain b v' s' where
      hc: "has_cycle graph k (visited, {}) = Inr (b, v', s')" by blast
    show ?thesis
    proof (cases b)
      case True
      from Cons.IH[OF sub, of v' "errors @ [CircularDependency k (get_title m)]"]
      obtain fs where fs: "cycle_scan graph modules keys v'
            (errors @ [CircularDependency k (get_title m)]) = Inr fs"
        and "circular_ids fs \<subseteq> circular_ids (errors @ [CircularDependency k (get_title m)])
            \<union> set keys" by blast
      then have "circular_ids fs \<subseteq> circular_ids errors \<union> set (k # keys)"
        by (auto simp: circular_ids_def)
      moreover from False hc True m fs have
        "cycle_scan graph modules (k # keys) visited errors = Inr fs" by simp
      ultimately show ?thesis by blast
    next
      case nb: False
      from Cons.IH[OF sub, of v' errors] obtain fs where
        fs: "cycle_scan graph modules keys v' errors = Inr fs"
        and "circular_ids fs \<subseteq> circular_ids errors \<union> set keys" by blast
      then have "circular_ids fs \<subseteq> circular_ids errors \<union> set (k # keys)" by auto
      moreover from False hc nb fs have
        "cycle_scan graph modules (k # keys) visited errors = Inr fs" by simp
      ultimately show ?thesis by blast
    qed
  qed
qed

lemma orphan_details_total:
  "set ids \<subseteq> fst ` set modules \<Longrightarrow>
     \<exists>details. orphan_details modules ids = Inr details \<and> map fst details = ids"
proof (induction ids)
  case Nil
  then show ?case by simp
next
  case (Cons k ids)
  from Cons.prems have "k \<in> fst ` set modules" and sub: "set ids \<subseteq> fst ` set modules"
    by simp_all
  from map_of_key[OF this(1)] obtain m where "map_of modules k = Some m" by blast
  moreover from Cons.IH[OF sub] obtain details where
    "orphan_details modules ids = Inr details" "map fst details = ids" by blast
  ultimately show ?case by simp
qed

lemma build_graph_keys: "map fst (build_graph ord modules) = map fst modules"
  by (induction modules) (auto simp: build_graph_def)

lemma build_set_graph_keys: "map fst (build_set_graph modules) = map fst modules"
  by (induction modules) (auto simp: build_set_graph_def)

lemma detect_cycles_total:
  "\<exists>fs. detect_cycles ord modules = Inr fs \<and> circular_ids fs \<subseteq> fst ` set modules"
proof -
  have "set (map fst (build_graph ord modules)) \<subseteq> fst ` set modules"
    by (simp add: build_graph_keys)
  from cycle_scan_total[OF this, of "build_graph ord modules" "{}" "[]"]
  show ?thesis by (auto simp: detect_cycles_def Let_def build_graph_keys circular_ids_def)
qed



lemma detect_orphans_total:
  "\<exists>fs. detect_orphans modules = Inr fs \<and> orphaned_ids fs \<subseteq> fst ` set modules
     \<and> (foundation_modules (build_set_graph modules) \<noteq> {} \<longrightarrow>
          orphaned_ids fs = fst ` set modules - reachable_modules (build_set_graph modules))
     \<and> (foundation_modules (build_set_graph modules) = {} \<longrightarrow> fs = [NoFoundationModules])"
proof -
  let ?g = "build_set_graph modules"
  let ?orph = "set (map fst ?g) - reachable_modules ?g"
  have fin: "finite ?orph" by simp
  have "set (sorted_list_of_set ?orph) \<subseteq> fst ` set modules"
    using fin by (auto simp: build_set_graph_keys)
  from orphan_details_total[OF this] obtain details where
    d: "orphan_details modules (sorted_list_of_set ?orph) = Inr details"
       "map fst details = sorted_list_of_set ?orph" by blast
  have ids: "set (map fst details) = ?orph" using d(2) fin by simp
  show ?thesis
  proof (cases "foundation_modules ?g = {}")
    case True
    then show ?thesis by (simp add: detect_orphans_def Let_def orphaned_ids_def)
  next
    case False
    show ?thesis
    proof (cases "?orph = {}")
      case True
      with False show ?thesis
        by (simp add: detect_orphans_def Let_def orphaned_ids_def build_set_graph_keys)
    next
      case ne: False
      with False d ids show ?thesis
        by (simp add: detect_orphans_def Let_def orphaned_ids_def build_set_graph_keys)
    qed
  qed
qed

lemma foundation_modules_iff: "mid \<in> foundation_modules graph \<longleftrightarrow> (mid, {}) \<in> set graph"
  by (force simp: foundation_modules_def)

lemma set_build_set_graph:
  "(mid, ps) \<in> set (build_set_graph modules)
     \<longleftrightarrow> (\<exists>m. (mid, m) \<in> set modules \<and> ps = set (get_prerequisites m))"
  by (auto simp: build_set_graph_def)

lemma foundation_empty_iff:
  "foundation_modules (build_set_graph modules) = {}
     \<longleftrightarrow> (\<forall>(mid, m) \<in> set modules. get_prerequisites m \<noteq> [])"
proof
  assume e: "foundation_modules (build_set_graph modules) = {}"
  show "\<forall>(mid, m) \<in> set modules. get_prerequisites m \<noteq> []"
  proof (clarify)
    fix mid m assume "(mid, m) \<in> set modules" "get_prerequisites m = []"
    then have "(mid, {}) \<in> set (build_set_graph modules)"
      by (subst set_build_set_graph) (intro exI[of _ m], simp)
    then have "mid \<in> foundation_modules (build_set_graph modules)"
      by (simp add: foundation_modules_iff)
    with e show False by simp
  qed
next
  assume a: "\<forall>(mid, m) \<in> set modules. get_prerequisites m \<noteq> []"
  show "foundation_modules (build_set_graph modules) = {}"
  proof (rule ccontr)
    assume "foundation_modules (build_set_graph modules) \<noteq> {}"
    then obtain mid where "mid \<in> foundation_modules (build_set_graph modules)" by blast
    then have "(mid, {}) \<in> set (build_set_graph modules)" by (simp add: foundation_modules_iff)
    then obtain m where "(mid, m) \<in> set modules" "set (get_prerequisites m) = {}"
      by (auto simp: set_build_set_graph)
    with a show False by auto
  qed
qed

lemma expand_passes:
  "expand graph reachable passes = (reachable', passes') \<Longrightarrow>
     passes' \<le> passes + card (fst ` set graph - reachable) + 1"
proof (induction graph reachable passes arbitrary: reachable' passes' rule: expand.induct)
  case (1 graph reachable passes)
  obtain r1 ch where sw: "sweep graph reachable False = (r1, ch)"
    by (cases "sweep graph reachable False") auto
  show ?case
  proof (cases ch)
    case True
    with sw 1(2) have ex: "expand graph r1 (Suc passes) = (reachable', passes')"
      by (simp add: expand.simps[of graph reachable])
    from 1(1)[OF sw[symmetric] True ex]
    have le: "passes' \<le> Suc passes + card (fst ` set graph - r1) + 1" by simp
    from sweep_grows[OF sw] True have "reachable \<subset> r1"
      and "r1 \<subseteq> reachable \<union> fst ` set graph" by auto
    then have "fst ` set graph - r1 \<subset> fst ` set graph - reachable" by blast
    then have "card (fst ` set graph - r1) < card (fst ` set graph - reachable)"
      by (intro psubset_card_mono) auto
    with le show ?thesis by simp
  next
    case False
    with sw 1(2) show ?thesis by (simp add: expand.simps[of graph reachable])
  qed
qed

section \<open>Reported ids\<close>

text \<open>
  C9. Both checks return a list of findings (neither raises), and every module id named
  in a circular-dependency finding or listed as unreachable is a key of the registry. An
  id that occurs only in prerequisite lists, and is not a key, is never reported by
  either check.
\<close>

theorem reported_ids_are_registry_keys:
  "\<exists>cycles orphans.
      detect_cycles ord modules = Inr cycles \<and> detect_orphans modules = Inr orphans
      \<and> circular_ids cycles \<subseteq> fst ` set modules
      \<and> orphaned_ids orphans \<subseteq> fst ` set modules
      \<and> (\<forall>d. map_of modules d = None \<longrightarrow> d \<notin> circular_ids cycles \<and> d \<notin> orphaned_ids orphans)"
proof -
  from detect_cycles_total[of ord modules] obtain cycles where
    c: "detect_cycles ord modules = Inr cycles" "circular_ids cycles \<subseteq> fst ` set modules"
    by blast
  from detect_orphans_total[of modules] obtain orphans where
    p: "detect_orphans modules = Inr orphans" "orphaned_ids orphans \<subseteq> fst ` set modules"
    by blast
  have "\<And>d. map_of modules d = None \<Longrightarrow> d \<notin> fst ` set modules"
    by (simp add: map_of_eq_None_iff)
  with c p show ?thesis by blast
qed

theorem reported_ids_are_registry_keys_witness:
  "detect_cycles remdups [(0, bare_module [1, 99]), (1, bare_module [0]), (2, bare_module [])]
     = Inr [CircularDependency 0 ''Unknown'']
   \<and> detect_orphans [(0, bare_module [1, 99]), (1, bare_module [0]), (2, bare_module [])]
     = Inr [UnreachableModules [(0, ''Unknown''), (1, ''Unknown'')] [2]]
   \<and> map_of [(0, bare_module [1, 99]), (1, bare_module [0]), (2, bare_module [])] (99::int) = None
   \<and> 99 \<notin> circular_ids [CircularDependency 0 ''Unknown'']
   \<and> 99 \<notin> orphaned_ids [UnreachableModules [(0, ''Unknown''), (1, ''Unknown'')] [2]]"
proof -
  have e: "detect_cycles remdups
        [(0, bare_module [1, 99]), (1, bare_module [0]), (2, bare_module [])]
       = Inr [CircularDependency 0 ''Unknown'']
     \<and> detect_orphans [(0, bare_module [1, 99]), (1, bare_module [0]), (2, bare_module [])]
       = Inr [UnreachableModules [(0, ''Unknown''), (1, ''Unknown'')] [2]]
     \<and> map_of [(0, bare_module [1, 99]), (1, bare_module [0]), (2, bare_module [])] (99::int) = None
     \<and> 99 \<notin> circular_ids [CircularDependency 0 ''Unknown'']
     \<and> 99 \<notin> orphaned_ids [UnreachableModules [(0, ''Unknown''), (1, ''Unknown'')] [2]]"
    by code_simp
  from reported_ids_are_registry_keys
    [of remdups "[(0, bare_module [1, 99]), (1, bare_module [0]), (2, bare_module [])]"] e
  show ?thesis by blast
qed

section \<open>No foundation modules\<close>

text \<open>
  C7. When every module of the registry has a non-empty prerequisite list, orphan
  detection returns exactly one finding, the one saying that there are no foundation
  modules, and that list names no module as unreachable.
\<close>

theorem no_foundation_stops:
  assumes "\<forall>(mid, m) \<in> set modules. get_prerequisites m \<noteq> []"
  shows "\<exists>fs. detect_orphans modules = Inr fs \<and> fs = [NoFoundationModules]
           \<and> orphaned_ids fs = {}"
proof -
  from assms have "foundation_modules (build_set_graph modules) = {}"
    by (simp only: foundation_empty_iff)
  then have "detect_orphans modules = Inr [NoFoundationModules]"
    by (simp add: detect_orphans_def Let_def)
  then show ?thesis by (simp add: orphaned_ids_def)
qed

theorem no_foundation_stops_witness:
  "get_prerequisites (bare_module [1]) \<noteq> [] \<and> get_prerequisites (bare_module [0]) \<noteq> []
   \<and> detect_orphans [(0, bare_module [1]), (1, bare_module [0])] = Inr [NoFoundationModules]"
proof -
  have h: "\<forall>(mid, m) \<in> set [(0, bare_module [1]), (1, bare_module [0])].
      get_prerequisites m \<noteq> []"
    by (simp add: bare_module_def get_prerequisites_def)
  from no_foundation_stops[OF h] h show ?thesis by simp
qed

section \<open>The reachability sweep\<close>

text \<open>
  C10. The \<open>while changed\<close> loop of orphan detection terminates (\<open>expand\<close> is a total
  function; its termination proof is the one above). A pass that sets \<open>changed\<close> has
  added at least one module of the graph to the reachable set and is followed by another
  pass; a pass that leaves \<open>changed\<close> false changes nothing and is the last one. From
  any starting set the loop makes at most as many passes as there are modules, plus one.
\<close>

theorem reachability_sweep_passes_bounded:
  "(\<forall>reachable reachable' changed passes.
       sweep graph reachable False = (reachable', changed) \<longrightarrow>
         (if changed
          then reachable \<subset> reachable' \<and> reachable' \<subseteq> reachable \<union> fst ` set graph
               \<and> expand graph reachable passes = expand graph reachable' (Suc passes)
          else reachable' = reachable
               \<and> expand graph reachable passes = (reachable, Suc passes)))
   \<and> snd (expand graph start 0) \<le> length graph + 1"
proof (intro conjI allI impI)
  fix reachable reachable' changed passes
  assume sw: "sweep graph reachable False = (reachable', changed)"
  from sweep_grows[OF sw] have g: "reachable \<subseteq> reachable'"
    "reachable' \<subseteq> reachable \<union> fst ` set graph" "changed \<longleftrightarrow> reachable \<subset> reachable'"
    by auto
  show "if changed
          then reachable \<subset> reachable' \<and> reachable' \<subseteq> reachable \<union> fst ` set graph
               \<and> expand graph reachable passes = expand graph reachable' (Suc passes)
          else reachable' = reachable
               \<and> expand graph reachable passes = (reachable, Suc passes)"
  proof (cases changed)
    case True
    with sw g show ?thesis by (simp add: expand.simps[of graph reachable])
  next
    case False
    with g have "reachable' = reachable" by auto
    with sw False show ?thesis by (simp add: expand.simps[of graph reachable])
  qed
next
  obtain r n where e: "expand graph start 0 = (r, n)" by (cases "expand graph start 0") auto
  from expand_passes[OF e] have "n \<le> card (fst ` set graph - start) + 1" by simp
  also have "card (fst ` set graph - start) \<le> card (fst ` set graph)"
    by (intro card_mono) auto
  also have "card (fst ` set graph) \<le> length graph"
    by (metis card_image_le card_length le_trans List.finite_set)
  finally show "snd (expand graph start 0) \<le> length graph + 1" using e by simp
qed

theorem reachability_sweep_passes_bounded_witness:
  "sweep [(2, {1}), (1, {0}), (0, {})] {0} False = ({0, 1}, True)
   \<and> expand [(2, {1}), (1, {0}), (0, {})] {0} 0 = ({0, 1, 2}, 3)
   \<and> snd (expand [(2, {1}), (1, {0}), (0, {})] {0} 0) \<le> length [(2::int, {1::int}), (1, {0}), (0, {})] + 1"
proof -
  have "sweep [(2, {1}), (1, {0}), (0, {})] {0} False = ({0, 1::int}, True)" by auto
  moreover have "expand [(2, {1}), (1, {0}), (0, {})] {0} 0 = ({0, 1, 2::int}, 3)"
    by code_simp
  ultimately show ?thesis
    using reachability_sweep_passes_bounded[of "[(2, {1}), (1, {0}), (0, {})]" "{0}"]
    by blast
qed

section \<open>Progression rule\<close>

lemma progression_edge_ids:
  "(a, b) \<in> violation_edges (progression_edge modules M m P) \<Longrightarrow> a = M \<and> b = P"
  by (auto simp: progression_edge_def violation_edges_def Let_def
      split: option.splits if_splits)

lemma violation_edges_rules:
  "violation_edges (validate_progression_rules modules)
     = (\<Union>(M, m) \<in> set modules. \<Union>P \<in> set (get_prerequisites m).
          violation_edges (progression_edge modules M m P))"
proof -
  have c: "violation_edges (concat xss) = (\<Union>xs \<in> set xss. violation_edges xs)" for xss
    by (induction xss) (auto simp: violation_edges_def)
  show ?thesis
    unfolding validate_progression_rules_def c
    by (force simp: c)
qed

lemma progression_edge_iff:
  "map_of modules P = Some p \<Longrightarrow>
   (M, P) \<in> violation_edges (progression_edge modules M m P) \<longleftrightarrow>
     (in_bloom_order (bloom_level m) \<and> in_bloom_order (bloom_level p)
      \<and> (\<exists>sm sp. scaffolding_value (scaffolding_level m) = Some sm
            \<and> scaffolding_value (scaffolding_level p) = Some sp
            \<and> bloom_index (bloom_level m) > bloom_index (bloom_level p) \<and> sm < sp))"
proof -
  assume P: "map_of modules P = Some p"
  show ?thesis
  proof (cases "scaffolding_value (scaffolding_level m)")
    case None
    with P show ?thesis
      by (simp add: progression_edge_def violation_edges_def Let_def)
  next
    case sm: (Some sm)
    show ?thesis
    proof (cases "scaffolding_value (scaffolding_level p)")
      case None
      with sm P show ?thesis
        by (simp add: progression_edge_def violation_edges_def Let_def)
    next
      case sp: (Some sp)
      with sm P show ?thesis
        by (auto simp add: progression_edge_def violation_edges_def Let_def)
    qed
  qed
qed

text \<open>
  C3. For a module \<open>M\<close> of the registry and an entry \<open>P\<close> of its prerequisite list
  that is itself in the registry: a progression violation naming \<open>(M, P)\<close> is reported
  if and only if both Bloom levels are in \<open>BLOOM_ORDER\<close>, both scaffolding levels are
  keys of \<open>SCAFFOLDING_VALUE\<close>, the Bloom index of \<open>M\<close> is strictly greater than that
  of \<open>P\<close> and the scaffolding value of \<open>M\<close> is strictly less than that of \<open>P\<close>. So no
  violation is reported when the Bloom indices are equal, when the scaffolding of \<open>M\<close>
  is not below that of \<open>P\<close>, or when a level is outside its enumeration.
\<close>

theorem progression_violation_iff:
  assumes "distinct (map fst modules)"
    and "(M, m) \<in> set modules"
    and "P \<in> set (get_prerequisites m)"
    and "map_of modules P = Some p"
  shows "(M, P) \<in> violation_edges (validate_progression_rules modules) \<longleftrightarrow>
     (in_bloom_order (bloom_level m) \<and> in_bloom_order (bloom_level p)
      \<and> (\<exists>sm sp. scaffolding_value (scaffolding_level m) = Some sm
            \<and> scaffolding_value (scaffolding_level p) = Some sp
            \<and> bloom_index (bloom_level m) > bloom_index (bloom_level p) \<and> sm < sp))"
proof -
  have "(M, P) \<in> violation_edges (validate_progression_rules modules)
      \<longleftrightarrow> (M, P) \<in> violation_edges (progression_edge modules M m P)"
  proof
    assume "(M, P) \<in> violation_edges (validate_progression_rules modules)"
    then obtain M' m' P' where in': "(M', m') \<in> set modules" "P' \<in> set (get_prerequisites m')"
      and e: "(M, P) \<in> violation_edges (progression_edge modules M' m' P')"
      unfolding violation_edges_rules by blast
    from progression_edge_ids[OF e] have "M' = M" "P' = P" by simp_all
    with in' assms(1,2) have "m' = m" by (meson eq_key_imp_eq_value)
    with e \<open>M' = M\<close> \<open>P' = P\<close> show "(M, P) \<in> violation_edges (progression_edge modules M m P)"
      by simp
  next
    assume "(M, P) \<in> violation_edges (progression_edge modules M m P)"
    with assms(2,3) show "(M, P) \<in> violation_edges (validate_progression_rules modules)"
      unfolding violation_edges_rules by blast
  qed
  with progression_edge_iff[OF assms(4)] show ?thesis by simp
qed

theorem progression_violation_iff_witness:
  "distinct (map fst [(0::int, levelled_module ''Remember'' ''HIGH'' []),
                      (1, levelled_module ''Create'' ''LOW'' [0])])
   \<and> (1, levelled_module ''Create'' ''LOW'' [0])
        \<in> set [(0, levelled_module ''Remember'' ''HIGH'' []),
                (1, levelled_module ''Create'' ''LOW'' [0])]
   \<and> 0 \<in> set (get_prerequisites (levelled_module ''Create'' ''LOW'' [0]))
   \<and> map_of [(0, levelled_module ''Remember'' ''HIGH'' []),
              (1, levelled_module ''Create'' ''LOW'' [0])] 0
        = Some (levelled_module ''Remember'' ''HIGH'' [])
   \<and> bloom_index (Some ''Create'') = 5 \<and> bloom_index (Some ''Remember'') = 0
   \<and> scaffolding_value (Some ''LOW'') = Some 1 \<and> scaffolding_value (Some ''HIGH'') = Some 3
   \<and> (1, 0) \<in> violation_edges (validate_progression_rules
          [(0, levelled_module ''Remember'' ''HIGH'' []),
           (1, levelled_module ''Create'' ''LOW'' [0])])"
proof -
  let ?M = "[(0::int, levelled_module ''Remember'' ''HIGH'' []),
             (1, levelled_module ''Create'' ''LOW'' [0])]"
  have h1: "distinct (map fst ?M)" by simp
  have h2: "(1, levelled_module ''Create'' ''LOW'' [0]) \<in> set ?M" by simp
  have h3: "0 \<in> set (get_prerequisites (levelled_module ''Create'' ''LOW'' [0]))"
    by (simp add: get_prerequisites_def levelled_module_def)
  have h4: "map_of ?M 0 = Some (levelled_module ''Remember'' ''HIGH'' [])" by simp
  have v: "bloom_index (Some ''Create'') = 5 \<and> bloom_index (Some ''Remember'') = 0
      \<and> scaffolding_value (Some ''LOW'') = Some 1 \<and> scaffolding_value (Some ''HIGH'') = Some 3
      \<and> in_bloom_order (Some ''Create'') \<and> in_bloom_order (Some ''Remember'')"
    by (simp add: bloom_index_def list_index_def BLOOM_ORDER_def scaffolding_value_def
        SCAFFOLDING_VALUE_def in_bloom_order_def)
  have "(1, 0) \<in> violation_edges (validate_progression_rules ?M)"
    using progression_violation_iff[OF h1 h2 h3 h4] v
    by (simp add: levelled_module_def)
  with h1 h2 h3 h4 v show ?thesis by simp
qed

section \<open>The whole run\<close>




section \<open>Duplicate module ids\<close>

lemma load_loop_distinct:
  "distinct (map fst modules) \<Longrightarrow> distinct (map fst (fst (load_loop module_dirs (modules, warnings))))"
proof (induction module_dirs "(modules, warnings)" arbitrary: modules warnings rule: load_loop.induct)
  case 1
  then show ?case by simp
next
  case (2 name rest modules warnings)
  then show ?case by simp
next
  case (3 name rest modules warnings)
  then show ?case by simp
next
  case (4 name py rest modules warnings)
  show ?case
  proof (cases "try_load modules name py")
    case (Skipped w)
    with 4 show ?thesis by simp
  next
    case (Raised e)
    with 4 show ?thesis by simp
  next
    case (Stored module_id metadata)
    then have "map_of modules module_id = None"
      by (auto simp: try_load_def split: metadata_py.splits option.splits if_splits)
    then have "module_id \<notin> fst ` set modules" by (simp add: map_of_eq_None_iff)
    with 4(4) have "distinct (map fst (modules @ [(module_id, metadata)]))" by simp
    from 4(3)[OF Stored this] Stored show ?thesis by simp
  qed
qed

lemma discover_modules_distinct:
  "discover_modules module_dirs = Inr (modules, warnings) \<Longrightarrow> distinct (map fst modules)"
  using load_loop_distinct[of "[]" module_dirs "[]"]
  by (auto simp: discover_modules_def split: if_splits)

text \<open>
  C6. Two module directories whose metadata carry the same id: the \<open>ValueError\<close> raised
  for the duplicate is caught by the \<open>except Exception\<close> clause of the same loop
  iteration, so \<open>discover_modules\<close> does not fail. It returns a registry holding the
  first of the two modules, and a warning for the second.
\<close>

theorem duplicate_id_is_skipped:
  "discover_modules
     [(''module_01'', MetadataPy (METADATA (Some 1) (bare_module []))),
      (''module_02'', MetadataPy (METADATA (Some 1) (bare_module [1])))]
   = Inr ([(1, bare_module [])], [ErrorLoading ''module_02'' ValueError])"
  by (simp add: discover_modules_def try_load_def)

section \<open>Orphan detection computes the completable modules\<close>

lemma prereq_edges_iff:
  "(M, P) \<in> prereq_edges modules \<longleftrightarrow> (\<exists>m. (M, m) \<in> set modules \<and> P \<in> set (get_prerequisites m))"
  by (auto simp: prereq_edges_def)

lemma sweep_within:
  "sweep graph reachable changed = (reachable', changed') \<Longrightarrow>
   set graph \<subseteq> set (build_set_graph modules) \<Longrightarrow> reachable \<subseteq> completable modules \<Longrightarrow>
   reachable' \<subseteq> completable modules"
proof (induction graph reachable changed rule: sweep.induct)
  case (1 reachable changed)
  then show ?case by simp
next
  case (2 mid prereqs rest reachable changed)
  from 2(4) have mem: "(mid, prereqs) \<in> set (build_set_graph modules)"
    and sub: "set rest \<subseteq> set (build_set_graph modules)" by simp_all
  show ?case
  proof (cases "mid \<notin> reachable \<and> prereqs \<subseteq> reachable")
    case True
    from mem obtain m where m: "(mid, m) \<in> set modules" "prereqs = set (get_prerequisites m)"
      by (auto simp: set_build_set_graph)
    with True 2(5) have "\<forall>P \<in> set (get_prerequisites m). P \<in> completable modules" by auto
    with m(1) have "mid \<in> completable modules" by (rule completable.intros)
    with 2(5) have "insert mid reachable \<subseteq> completable modules" by simp
    from 2(1)[OF True _ sub this] 2(3) True show ?thesis by simp
  next
    case False
    from 2(2)[OF False _ sub 2(5)] 2(3) False show ?thesis by simp
  qed
qed

lemma sweep_fixpoint:
  "sweep graph reachable changed = (reachable, changed') \<Longrightarrow>
   (mid, prereqs) \<in> set graph \<Longrightarrow> prereqs \<subseteq> reachable \<Longrightarrow> mid \<in> reachable"
proof (induction graph reachable changed rule: sweep.induct)
  case (1 reachable changed)
  then show ?case by simp
next
  case (2 mid' prereqs' rest reachable changed)
  show ?case
  proof (cases "mid' \<notin> reachable \<and> prereqs' \<subseteq> reachable")
    case True
    with 2(3) have "sweep rest (insert mid' reachable) True = (reachable, changed')" by simp
    from sweep_grows[OF this] True show ?thesis by auto
  next
    case False
    with 2(3) have sw: "sweep rest reachable changed = (reachable, changed')" by simp
    show ?thesis
    proof (cases "(mid, prereqs) = (mid', prereqs')")
      case True
      with False 2(5) show ?thesis by auto
    next
      case ne: False
      with 2(4) have "(mid, prereqs) \<in> set rest" by auto
      from 2(2)[OF False sw this 2(5)] show ?thesis .
    qed
  qed
qed

lemma expand_closed:
  "expand graph reachable passes = (reachable', passes') \<Longrightarrow>
     reachable \<subseteq> reachable'
     \<and> (\<forall>(mid, prereqs) \<in> set graph. prereqs \<subseteq> reachable' \<longrightarrow> mid \<in> reachable')"
proof (induction graph reachable passes arbitrary: reachable' passes' rule: expand.induct)
  case (1 graph reachable passes)
  obtain r1 ch where sw: "sweep graph reachable False = (r1, ch)"
    by (cases "sweep graph reachable False") auto
  from sweep_grows[OF sw] have g: "reachable \<subseteq> r1" "ch \<longleftrightarrow> reachable \<subset> r1" by auto
  show ?case
  proof (cases ch)
    case True
    with sw 1(2) have "expand graph r1 (Suc passes) = (reachable', passes')"
      by (simp add: expand.simps[of graph reachable])
    from 1(1)[OF sw[symmetric] True this] g show ?thesis by auto
  next
    case False
    with g have eq: "r1 = reachable" by auto
    from False sw 1(2) have "reachable' = r1" by (simp add: expand.simps[of graph reachable])
    with eq sw sweep_fixpoint[of graph reachable False ch] show ?thesis by auto
  qed
qed

lemma expand_within:
  "expand graph reachable passes = (reachable', passes') \<Longrightarrow>
   set graph \<subseteq> set (build_set_graph modules) \<Longrightarrow> reachable \<subseteq> completable modules \<Longrightarrow>
   reachable' \<subseteq> completable modules"
proof (induction graph reachable passes arbitrary: reachable' passes' rule: expand.induct)
  case (1 graph reachable passes)
  obtain r1 ch where sw: "sweep graph reachable False = (r1, ch)"
    by (cases "sweep graph reachable False") auto
  from sweep_within[OF sw 1(3) 1(4)] have r1: "r1 \<subseteq> completable modules" .
  show ?case
  proof (cases ch)
    case True
    with sw 1(2) have "expand graph r1 (Suc passes) = (reachable', passes')"
      by (simp add: expand.simps[of graph reachable])
    from 1(1)[OF sw[symmetric] True this 1(3) r1] show ?thesis .
  next
    case False
    with sw 1(2) r1 show ?thesis by (simp add: expand.simps[of graph reachable])
  qed
qed

lemma foundation_completable:
  "foundation_modules (build_set_graph modules) \<subseteq> completable modules"
proof
  fix M assume "M \<in> foundation_modules (build_set_graph modules)"
  then have "(M, {}) \<in> set (build_set_graph modules)" by (simp add: foundation_modules_iff)
  then obtain m where m: "(M, m) \<in> set modules" "set (get_prerequisites m) = {}"
    by (auto simp: set_build_set_graph)
  then have "\<forall>P \<in> set (get_prerequisites m). P \<in> completable modules" by simp
  with m(1) show "M \<in> completable modules" by (rule completable.intros)
qed

lemma reachable_modules_completable:
  "reachable_modules (build_set_graph modules) = completable modules"
proof -
  let ?g = "build_set_graph modules"
  obtain r n where e: "expand ?g (foundation_modules ?g) 0 = (r, n)"
    by (cases "expand ?g (foundation_modules ?g) 0") auto
  from expand_within[OF e subset_refl foundation_completable] have 1: "r \<subseteq> completable modules" .
  from expand_closed[OF e] have
    cl: "\<And>mid prereqs. (mid, prereqs) \<in> set ?g \<Longrightarrow> prereqs \<subseteq> r \<Longrightarrow> mid \<in> r" by auto
  have 2: "completable modules \<subseteq> r"
  proof
    fix M assume "M \<in> completable modules"
    then show "M \<in> r"
    proof (induction rule: completable.induct)
      case (1 M m)
      then have "(M, set (get_prerequisites m)) \<in> set ?g"
        by (subst set_build_set_graph) blast
      moreover from 1 have "set (get_prerequisites m) \<subseteq> r" by auto
      ultimately show ?case by (rule cl)
    qed
  qed
  from 1 2 e show ?thesis by (simp add: reachable_modules_def)
qed

lemma completable_hop_reachable:
  "M \<in> completable modules \<Longrightarrow> hop_reachable modules M"
proof (induction rule: completable.induct)
  case (1 M m)
  show ?case
  proof (cases "get_prerequisites m")
    case Nil
    with 1(1) have "(M, {}) \<in> set (build_set_graph modules)"
      by (subst set_build_set_graph) (intro exI[of _ m], simp)
    then have "M \<in> foundation_modules (build_set_graph modules)"
      by (simp add: foundation_modules_iff)
    then show ?thesis unfolding hop_reachable_def by blast
  next
    case (Cons P ps)
    with 1 have "hop_reachable modules P" by simp
    then obtain F where F: "F \<in> foundation_modules (build_set_graph modules)"
      "(P, F) \<in> (prereq_edges modules)\<^sup>*" unfolding hop_reachable_def by blast
    from 1(1) Cons have "(M, P) \<in> prereq_edges modules"
      by (subst prereq_edges_iff) (intro exI[of _ m], simp)
    from this F(2) have "(M, F) \<in> (prereq_edges modules)\<^sup>*"
      by (rule converse_rtrancl_into_rtrancl)
    with F(1) show ?thesis unfolding hop_reachable_def by blast
  qed
qed

text \<open>
  C2, as the code has it. For a registry with at least one foundation module, a module
  of the registry is listed as unreachable if and only if it is not completable: it is
  not in the least set that contains every module all of whose prerequisites are in the
  set. Every module from which no chain of prerequisite hops leads to a foundation
  module is therefore listed. A module with such a chain is listed all the same when
  one of its prerequisites is not completable.
\<close>

theorem orphans_are_not_completable:
  assumes "foundation_modules (build_set_graph modules) \<noteq> {}"
  shows "\<exists>fs. detect_orphans modules = Inr fs
     \<and> (\<forall>M \<in> fst ` set modules. M \<in> orphaned_ids fs \<longleftrightarrow> M \<notin> completable modules)
     \<and> (\<forall>M \<in> fst ` set modules. \<not> hop_reachable modules M \<longrightarrow> M \<in> orphaned_ids fs)"
proof -
  from detect_orphans_total[of modules] assms obtain fs where
    fs: "detect_orphans modules = Inr fs"
    "orphaned_ids fs = fst ` set modules - reachable_modules (build_set_graph modules)"
    by blast
  then have o: "orphaned_ids fs = fst ` set modules - completable modules"
    by (simp only: reachable_modules_completable)
  then have "\<forall>M \<in> fst ` set modules. M \<in> orphaned_ids fs \<longleftrightarrow> M \<notin> completable modules"
    by simp
  moreover from o completable_hop_reachable
  have "\<forall>M \<in> fst ` set modules. \<not> hop_reachable modules M \<longrightarrow> M \<in> orphaned_ids fs"
    by blast
  ultimately show ?thesis using fs(1) by blast
qed

theorem orphans_are_not_completable_witness:
  "foundation_modules (build_set_graph
       [(0, bare_module []), (1, bare_module [0]), (2, bare_module [3]), (3, bare_module [2])])
     \<noteq> {}
   \<and> detect_orphans
        [(0, bare_module []), (1, bare_module [0]), (2, bare_module [3]), (3, bare_module [2])]
        = Inr [UnreachableModules [(2, ''Unknown''), (3, ''Unknown'')] [0]]
   \<and> 1 \<in> completable
        [(0, bare_module []), (1, bare_module [0]), (2, bare_module [3]), (3, bare_module [2])]
   \<and> 2 \<notin> completable
        [(0, bare_module []), (1, bare_module [0]), (2, bare_module [3]), (3, bare_module [2])]"
proof -
  let ?M = "[(0::int, bare_module []), (1, bare_module [0]), (2, bare_module [3]),
             (3, bare_module [2])]"
  have f: "foundation_modules (build_set_graph ?M) \<noteq> {}" by code_simp
  have d: "detect_orphans ?M = Inr [UnreachableModules [(2, ''Unknown''), (3, ''Unknown'')] [0]]"
    by code_simp
  have o: "orphaned_ids [UnreachableModules [(2, ''Unknown''), (3, ''Unknown'')] [0]] = {2, 3}"
    by (simp add: orphaned_ids_def)
  have k: "1 \<in> fst ` set ?M" "2 \<in> fst ` set ?M" by simp_all
  from orphans_are_not_completable[OF f] d o k
  have "1 \<in> completable ?M \<and> 2 \<notin> completable ?M" by auto
  with f d show ?thesis by blast
qed

text \<open>
  C2 as stated fails: in the registry \<open>{0: [], 1: [0, 2], 2: [1]}\<close> module 1 reaches
  the foundation module 0 in one prerequisite hop, and is listed as unreachable.
\<close>

theorem hop_reachable_but_orphaned:
  "foundation_modules (build_set_graph
       [(0, bare_module []), (1, bare_module [0, 2]), (2, bare_module [1])]) = {0}
   \<and> (1, 0) \<in> prereq_edges [(0, bare_module []), (1, bare_module [0, 2]), (2, bare_module [1])]
   \<and> hop_reachable [(0, bare_module []), (1, bare_module [0, 2]), (2, bare_module [1])] 1
   \<and> detect_orphans [(0, bare_module []), (1, bare_module [0, 2]), (2, bare_module [1])]
        = Inr [UnreachableModules [(1, ''Unknown''), (2, ''Unknown'')] [0]]
   \<and> 1 \<in> orphaned_ids [UnreachableModules [(1, ''Unknown''), (2, ''Unknown'')] [0]]"
proof -
  let ?M = "[(0::int, bare_module []), (1, bare_module [0, 2]), (2, bare_module [1])]"
  have f: "foundation_modules (build_set_graph ?M) = {0}" by code_simp
  have e: "(1, 0) \<in> prereq_edges ?M" by code_simp
  from f e have h: "hop_reachable ?M 1" unfolding hop_reachable_def by blast
  have d: "detect_orphans ?M = Inr [UnreachableModules [(1, ''Unknown''), (2, ''Unknown'')] [0]]"
    by code_simp
  have o: "1 \<in> orphaned_ids [UnreachableModules [(1, ''Unknown''), (2, ''Unknown'')] [0]]"
    by code_simp
  from f e h d o show ?thesis by blast
qed

section \<open>The depth-first search\<close>

lemma has_cycle_Inr:
  "has_cycle graph node (v, s) = Inr (b, v', s') \<Longrightarrow>
     \<exists>s''. for_neighbors graph (graph_get graph node) (insert node v, insert node s)
             = Inr (b, v', s'')
          \<and> (if b then s' = s'' else node \<in> s'' \<and> s' = s'' - {node})"
  by (auto simp: has_cycle.simps split: sum.splits bool.splits if_splits prod.splits)

lemma for_neighbors_Cons_Inr:
  "for_neighbors graph (n # ns) (v, s) = Inr (b, v', s') \<Longrightarrow>
     (n \<in> v \<and> n \<in> s \<and> b \<and> v' = v \<and> s' = s)
     \<or> (n \<in> v \<and> n \<notin> s \<and> for_neighbors graph ns (v, s) = Inr (b, v', s'))
     \<or> (n \<notin> v \<and> b \<and> has_cycle graph n (v, s) = Inr (True, v', s'))
     \<or> (n \<notin> v \<and> (\<exists>v1 s1. has_cycle graph n (v, s) = Inr (False, v1, s1)
            \<and> for_neighbors graph ns (v1, s1) = Inr (b, v', s')))"
  by (auto split: sum.splits bool.splits if_splits prod.splits)

lemma has_cycle_False_stack:
  assumes "has_cycle graph node (v, s) = Inr (False, v', s')" "s \<subseteq> v" "node \<notin> v"
  shows "s' = s" "insert node v \<subseteq> v'"
  using has_cycle_no_error(1)[of graph node v s] assms by auto

lemma for_neighbors_False_stack:
  assumes "for_neighbors graph ns (v, s) = Inr (False, v', s')" "s \<subseteq> v"
  shows "s' = s" "v \<subseteq> v'"
  using has_cycle_no_error(2)[of graph ns v s] assms by auto

text \<open>A traversal that returns True has found a cycle that its start node reaches.\<close>

lemma has_cycle_True_sound:
  "has_cycle graph node (v, s) = Inr (True, v', s') \<Longrightarrow>
     s \<subseteq> v \<Longrightarrow> \<forall>x \<in> s. (x, node) \<in> (edges graph)\<^sup>* \<Longrightarrow>
     \<exists>c. (node, c) \<in> (edges graph)\<^sup>* \<and> (c, c) \<in> (edges graph)\<^sup>+"
  "for_neighbors graph ns (v, s) = Inr (True, v', s') \<Longrightarrow>
     s \<subseteq> v \<Longrightarrow> \<forall>n \<in> set ns. (node', n) \<in> edges graph \<Longrightarrow>
     \<forall>x \<in> s. (x, node') \<in> (edges graph)\<^sup>* \<Longrightarrow>
     \<exists>c. (node', c) \<in> (edges graph)\<^sup>* \<and> (c, c) \<in> (edges graph)\<^sup>+"
proof (induction graph node "(v, s)" and graph ns "(v, s)"
    arbitrary: v s v' s' and v s v' s' node'
    rule: has_cycle_for_neighbors.induct)
  case (1 graph node visited rec_stack)
  from has_cycle_Inr[OF 1(2)] have
    fn: "for_neighbors graph (graph_get graph node) (insert node visited, insert node rec_stack)
          = Inr (True, v', s')" by simp
  have a: "insert node rec_stack \<subseteq> insert node visited" using 1(3) by auto
  have b: "\<forall>n \<in> set (graph_get graph node). (node, n) \<in> edges graph"
    by (simp add: edges_def)
  have c: "\<forall>x \<in> insert node rec_stack. (x, node) \<in> (edges graph)\<^sup>*" using 1(4) by auto
  from 1(1)[OF fn a b c] show ?case .
next
  case (2 graph visited rec_stack)
  then show ?case by simp
next
  case (3 graph neighbor rest visited rec_stack)
  from 3(6) have e: "(node', neighbor) \<in> edges graph"
    and rest: "\<forall>n \<in> set rest. (node', n) \<in> edges graph" by simp_all
  from for_neighbors_Cons_Inr[OF 3(4)]
  consider (backedge) "neighbor \<in> visited" "neighbor \<in> rec_stack"
    | (skip) "neighbor \<in> visited" "neighbor \<notin> rec_stack"
        "for_neighbors graph rest (visited, rec_stack) = Inr (True, v', s')"
    | (found) "neighbor \<notin> visited"
        "has_cycle graph neighbor (visited, rec_stack) = Inr (True, v', s')"
    | (later) v1 s1 where "neighbor \<notin> visited"
        "has_cycle graph neighbor (visited, rec_stack) = Inr (False, v1, s1)"
        "for_neighbors graph rest (v1, s1) = Inr (True, v', s')"
    by blast
  then show ?case
  proof cases
    case backedge
    with 3(7) have "(neighbor, node') \<in> (edges graph)\<^sup>*" by simp
    with e have "(neighbor, neighbor) \<in> (edges graph)\<^sup>+" by (rule rtrancl_into_trancl1[rotated])
    moreover from e have "(node', neighbor) \<in> (edges graph)\<^sup>*" by simp
    ultimately show ?thesis by blast
  next
    case skip
    from 3(3)[OF _ skip(2) skip(3) 3(5) rest 3(7)] skip(1) show ?thesis by simp
  next
    case found
    have "\<forall>x \<in> rec_stack. (x, neighbor) \<in> (edges graph)\<^sup>*"
      using 3(7) e by (meson rtrancl_into_rtrancl)
    from 3(1)[OF found(1) found(2) 3(5) this] obtain c where
      "(neighbor, c) \<in> (edges graph)\<^sup>*" "(c, c) \<in> (edges graph)\<^sup>+" by blast
    with e show ?thesis by (meson converse_rtrancl_into_rtrancl)
  next
    case later
    from has_cycle_False_stack[OF later(2) 3(5) later(1)] have
      st: "s1 = rec_stack" "insert neighbor visited \<subseteq> v1" by simp_all
    with 3(5) have sub: "s1 \<subseteq> v1" by auto
    from 3(7) st have reach: "\<forall>x \<in> s1. (x, node') \<in> (edges graph)\<^sup>*" by simp
    from 3(2)[OF later(1) later(2) refl refl refl later(3) sub rest reach]
    show ?thesis .
  qed
qed

lemma closed_trancl:
  assumes "(x, y) \<in> R\<^sup>+" "R `` {x} \<subseteq> B" "R `` B \<subseteq> B"
  shows "y \<in> B"
proof -
  from assms(1) show ?thesis
  proof (induction rule: trancl_induct)
    case (base y)
    with assms(2) show ?case by blast
  next
    case (step y z)
    with assms(3) show ?case by blast
  qed
qed

lemma dfs_inv_push:
  assumes "dfs_inv E V0 v s" "node \<notin> v"
  shows "dfs_inv E V0 (insert node v) (insert node s)"
proof -
  from assms(2) have eq: "insert node v - insert node s - V0 = v - s - V0" by blast
  from assms(1) have i: "V0 \<subseteq> v" "s \<subseteq> v" "s \<inter> V0 = {}"
    "\<forall>b w. b \<in> v - s - V0 \<and> (b, w) \<in> E \<longrightarrow> w \<in> v - s"
    "\<forall>b \<in> v - s - V0. (b, b) \<notin> (avoiding E V0)\<^sup>+"
    unfolding dfs_inv_def by blast+
  from i(1) have 1: "V0 \<subseteq> insert node v" by blast
  from i(2) have 2: "insert node s \<subseteq> insert node v" by blast
  from i(1,3) assms(2) have 3: "insert node s \<inter> V0 = {}" by blast
  from i(4) assms(2) have 4: "\<forall>b w. b \<in> insert node v - insert node s - V0 \<and> (b, w) \<in> E
      \<longrightarrow> w \<in> insert node v - insert node s" unfolding eq by blast
  from i(5) have 5: "\<forall>b \<in> insert node v - insert node s - V0. (b, b) \<notin> (avoiding E V0)\<^sup>+"
    unfolding eq .
  from 1 2 3 4 5 show ?thesis unfolding dfs_inv_def by blast
qed

lemma dfs_inv_pop:
  assumes inv: "dfs_inv E V0 v' (insert node s)"
    and node: "node \<notin> s" "node \<notin> V0"
    and succ: "\<forall>w. (node, w) \<in> E \<longrightarrow> w \<in> v' - insert node s"
  shows "dfs_inv E V0 v' s"
proof -
  let ?B = "v' - insert node s - V0"
  let ?R = "avoiding E V0"
  from inv have sub: "V0 \<subseteq> v'" "insert node s \<subseteq> v'" "s \<inter> V0 = {}"
    and cl: "\<forall>b w. b \<in> ?B \<and> (b, w) \<in> E \<longrightarrow> w \<in> v' - insert node s"
    and ac: "\<forall>b \<in> ?B. (b, b) \<notin> ?R\<^sup>+"
    unfolding dfs_inv_def by blast+
  have split: "v' - s - V0 = insert node ?B" using sub(2) node by blast
  have R1: "?R `` {node} \<subseteq> ?B"
  proof
    fix w assume "w \<in> ?R `` {node}"
    then have "(node, w) \<in> E" "w \<notin> V0" unfolding avoiding_def by blast+
    with succ show "w \<in> ?B" by blast
  qed
  have R2: "?R `` ?B \<subseteq> ?B"
  proof
    fix w assume "w \<in> ?R `` ?B"
    then obtain b where "b \<in> ?B" "(b, w) \<in> E" "w \<notin> V0" unfolding avoiding_def by blast
    with cl show "w \<in> ?B" by blast
  qed
  have nn: "(node, node) \<notin> ?R\<^sup>+"
  proof
    assume "(node, node) \<in> ?R\<^sup>+"
    from closed_trancl[OF this R1 R2] show False by simp
  qed
  have ac': "\<forall>b \<in> v' - s - V0. (b, b) \<notin> ?R\<^sup>+"
    unfolding split using ac nn by blast
  have cl': "\<forall>b w. b \<in> v' - s - V0 \<and> (b, w) \<in> E \<longrightarrow> w \<in> v' - s"
  proof (intro allI impI)
    fix b w assume bw: "b \<in> v' - s - V0 \<and> (b, w) \<in> E"
    then have "b = node \<or> b \<in> ?B" unfolding split by blast
    then have "w \<in> v' - insert node s" using bw cl succ by blast
    then show "w \<in> v' - s" by blast
  qed
  from sub(2) have s2: "s \<subseteq> v'" by blast
  from sub(1) s2 sub(3) cl' ac' show ?thesis unfolding dfs_inv_def by blast
qed

text \<open>A traversal that returns False leaves every node it visited finished.\<close>

lemma has_cycle_False_inv:
  "has_cycle graph node (v, s) = Inr (False, v', s') \<Longrightarrow>
     node \<notin> v \<Longrightarrow> dfs_inv (edges graph) V0 v s \<Longrightarrow>
     s' = s \<and> dfs_inv (edges graph) V0 v' s \<and> node \<in> v'"
  "for_neighbors graph ns (v, s) = Inr (False, v', s') \<Longrightarrow>
     dfs_inv (edges graph) V0 v s \<Longrightarrow>
     s' = s \<and> dfs_inv (edges graph) V0 v' s \<and> set ns \<subseteq> v' - s"
proof (induction graph node "(v, s)" and graph ns "(v, s)"
    arbitrary: v s v' s' and v s v' s'
    rule: has_cycle_for_neighbors.induct)
  case (1 graph node visited rec_stack)
  from 1(4) have sv: "rec_stack \<subseteq> visited" "V0 \<subseteq> visited" by (auto simp: dfs_inv_def)
  from has_cycle_Inr[OF 1(2)] obtain s'' where
    fn: "for_neighbors graph (graph_get graph node) (insert node visited, insert node rec_stack)
          = Inr (False, v', s'')"
    and pop: "node \<in> s''" "s' = s'' - {node}" by auto
  from 1(1)[OF fn dfs_inv_push[OF 1(4) 1(3)]] have
    st: "s'' = insert node rec_stack"
    and inv: "dfs_inv (edges graph) V0 v' (insert node rec_stack)"
    and nb: "set (graph_get graph node) \<subseteq> v' - insert node rec_stack" by simp_all
  from sv 1(3) have n: "node \<notin> rec_stack" "node \<notin> V0" by auto
  from nb have succ: "\<forall>w. (node, w) \<in> edges graph \<longrightarrow> w \<in> v' - insert node rec_stack"
    by (auto simp: edges_def)
  from dfs_inv_pop[OF inv n succ] have "dfs_inv (edges graph) V0 v' rec_stack" .
  moreover from pop st n have "s' = rec_stack" by auto
  moreover from inv have "node \<in> v'" by (auto simp: dfs_inv_def)
  ultimately show ?case by simp
next
  case (2 graph visited rec_stack)
  then show ?case by simp
next
  case (3 graph neighbor rest visited rec_stack)
  from 3(5) have sv: "rec_stack \<subseteq> visited" by (auto simp: dfs_inv_def)
  from for_neighbors_Cons_Inr[OF 3(4)]
  consider (skip) "neighbor \<in> visited" "neighbor \<notin> rec_stack"
        "for_neighbors graph rest (visited, rec_stack) = Inr (False, v', s')"
    | (later) v1 s1 where "neighbor \<notin> visited"
        "has_cycle graph neighbor (visited, rec_stack) = Inr (False, v1, s1)"
        "for_neighbors graph rest (v1, s1) = Inr (False, v', s')"
    by auto
  then show ?case
  proof cases
    case skip
    from 3(3)[OF _ skip(2) skip(3) 3(5)] skip(1) have
      r: "s' = rec_stack" "dfs_inv (edges graph) V0 v' rec_stack" "set rest \<subseteq> v' - rec_stack"
      by simp_all
    from for_neighbors_False_stack[OF skip(3) sv] have "visited \<subseteq> v'" by simp
    with skip(1,2) r show ?thesis by auto
  next
    case later
    from 3(1)[OF later(1) later(2) later(1) 3(5)] have
      h: "s1 = rec_stack" "dfs_inv (edges graph) V0 v1 rec_stack" "neighbor \<in> v1" by simp_all
    from later(3) h(1) have fn: "for_neighbors graph rest (v1, rec_stack) = Inr (False, v', s')"
      by simp
    from h(1,2) have "dfs_inv (edges graph) V0 v1 s1" by simp
    from 3(2)[OF later(1) later(2) refl refl refl later(3) this] h(1)
    have r: "s' = rec_stack" "dfs_inv (edges graph) V0 v' rec_stack" "set rest \<subseteq> v' - rec_stack"
      by simp_all
    from h(2) have "rec_stack \<subseteq> v1" by (auto simp: dfs_inv_def)
    from for_neighbors_False_stack[OF fn this] have "v1 \<subseteq> v'" by simp
    with h(3) later(1) sv r show ?thesis by auto
  qed
qed

text \<open>Everything a traversal adds to \<open>visited\<close> is reachable from its start node.\<close>

lemma has_cycle_visits_reachable:
  "has_cycle graph node (v, s) = Inr (b, v', s') \<Longrightarrow> v' \<subseteq> v \<union> (edges graph)\<^sup>* `` {node}"
  "for_neighbors graph ns (v, s) = Inr (b, v', s') \<Longrightarrow> v' \<subseteq> v \<union> (edges graph)\<^sup>* `` set ns"
proof (induction graph node "(v, s)" and graph ns "(v, s)"
    arbitrary: v s b v' s' and v s b v' s'
    rule: has_cycle_for_neighbors.induct)
  case (1 graph node visited rec_stack)
  from has_cycle_Inr[OF 1(2)] obtain s'' where
    fn: "for_neighbors graph (graph_get graph node) (insert node visited, insert node rec_stack)
          = Inr (b, v', s'')" by blast
  from 1(1)[OF fn] have
    "v' \<subseteq> insert node visited \<union> (edges graph)\<^sup>* `` set (graph_get graph node)" .
  moreover have "(edges graph)\<^sup>* `` set (graph_get graph node) \<subseteq> (edges graph)\<^sup>* `` {node}"
  proof
    fix x assume "x \<in> (edges graph)\<^sup>* `` set (graph_get graph node)"
    then obtain n where "n \<in> set (graph_get graph node)" "(n, x) \<in> (edges graph)\<^sup>*" by blast
    then have "(node, n) \<in> edges graph" by (simp add: edges_def)
    with \<open>(n, x) \<in> (edges graph)\<^sup>*\<close> show "x \<in> (edges graph)\<^sup>* `` {node}"
      by (auto intro: converse_rtrancl_into_rtrancl)
  qed
  ultimately show ?case by auto
next
  case (2 graph visited rec_stack)
  then show ?case by simp
next
  case (3 graph neighbor rest visited rec_stack)
  from for_neighbors_Cons_Inr[OF 3(4)]
  consider (backedge) "v' = visited"
    | (skip) "neighbor \<in> visited" "neighbor \<notin> rec_stack"
        "for_neighbors graph rest (visited, rec_stack) = Inr (b, v', s')"
    | (found) "neighbor \<notin> visited"
        "has_cycle graph neighbor (visited, rec_stack) = Inr (True, v', s')"
    | (later) v1 s1 where "neighbor \<notin> visited"
        "has_cycle graph neighbor (visited, rec_stack) = Inr (False, v1, s1)"
        "for_neighbors graph rest (v1, s1) = Inr (b, v', s')"
    by blast
  then show ?case
  proof cases
    case backedge
    then show ?thesis by simp
  next
    case skip
    from 3(3)[OF _ skip(2) skip(3)] skip(1) show ?thesis by auto
  next
    case found
    from 3(1)[OF found(1) found(2)] show ?thesis by auto
  next
    case later
    from 3(1)[OF later(1) later(2)] have "v1 \<subseteq> visited \<union> (edges graph)\<^sup>* `` {neighbor}" .
    moreover from 3(2)[OF later(1) later(2) refl refl refl later(3)]
    have "v' \<subseteq> v1 \<union> (edges graph)\<^sup>* `` set rest" .
    ultimately show ?thesis by auto
  qed
qed

section \<open>The outer loop of cycle detection\<close>

lemma cycle_scan_Cons_Inr:
  "cycle_scan graph modules (k # keys) v errors = Inr fs \<Longrightarrow>
     (k \<in> v \<and> cycle_scan graph modules keys v errors = Inr fs)
     \<or> (k \<notin> v \<and> (\<exists>v' s' m. has_cycle graph k (v, {}) = Inr (True, v', s')
            \<and> map_of modules k = Some m
            \<and> cycle_scan graph modules keys v'
                 (errors @ [CircularDependency k (get_title m)]) = Inr fs))
     \<or> (k \<notin> v \<and> (\<exists>v' s'. has_cycle graph k (v, {}) = Inr (False, v', s')
            \<and> cycle_scan graph modules keys v' errors = Inr fs))"
  by (auto split: sum.splits bool.splits if_splits prod.splits option.splits)

lemma circular_ids_snoc:
  "circular_ids (errors @ [CircularDependency k t]) = insert k (circular_ids errors)"
  by (simp add: circular_ids_def)

lemma cycle_scan_only_circular:
  "cycle_scan graph modules keys v errors = Inr fs \<Longrightarrow>
     \<forall>f \<in> set errors. circular_of f \<noteq> [] \<Longrightarrow> \<forall>f \<in> set fs. circular_of f \<noteq> []"
proof (induction keys arbitrary: v errors)
  case Nil
  then show ?case by simp
next
  case (Cons k keys)
  from cycle_scan_Cons_Inr[OF Cons.prems(1)]
  consider (seen) "cycle_scan graph modules keys v errors = Inr fs"
    | (found) v' m where "cycle_scan graph modules keys v'
                 (errors @ [CircularDependency k (get_title m)]) = Inr fs"
    | (clean) v' where "cycle_scan graph modules keys v' errors = Inr fs"
    by blast
  then show ?case
  proof cases
    case seen
    from Cons.IH[OF seen Cons.prems(2)] show ?thesis .
  next
    case found
    from Cons.prems(2) have
      "\<forall>f \<in> set (errors @ [CircularDependency k (get_title m)]). circular_of f \<noteq> []" by simp
    from Cons.IH[OF found this] show ?thesis .
  next
    case clean
    from Cons.IH[OF clean Cons.prems(2)] show ?thesis .
  qed
qed

lemma nonempty_circular:
  assumes "\<forall>f \<in> set fs. circular_of f \<noteq> []"
  shows "fs = [] \<longleftrightarrow> circular_ids fs = {}"
proof (cases fs)
  case Nil
  then show ?thesis by (simp add: circular_ids_def)
next
  case (Cons f fs')
  with assms have "circular_of f \<noteq> []" by simp
  then obtain x xs where "circular_of f = x # xs" by (cases "circular_of f") auto
  with Cons show ?thesis by (auto simp: circular_ids_def)
qed

text \<open>Every reported module reaches a cycle.\<close>

lemma cycle_scan_sound:
  "cycle_scan graph modules keys v errors = Inr fs \<Longrightarrow>
     \<forall>r \<in> circular_ids fs. r \<in> circular_ids errors
        \<or> (\<exists>c. (r, c) \<in> (edges graph)\<^sup>* \<and> (c, c) \<in> (edges graph)\<^sup>+)"
proof (induction keys arbitrary: v errors)
  case Nil
  then show ?case by simp
next
  case (Cons k keys)
  from cycle_scan_Cons_Inr[OF Cons.prems(1)]
  consider (seen) "cycle_scan graph modules keys v errors = Inr fs"
    | (found) v' s' m where "has_cycle graph k (v, {}) = Inr (True, v', s')"
        "cycle_scan graph modules keys v'
                 (errors @ [CircularDependency k (get_title m)]) = Inr fs"
    | (clean) v' where "cycle_scan graph modules keys v' errors = Inr fs"
    by blast
  then show ?case
  proof cases
    case seen
    from Cons.IH[OF seen] show ?thesis .
  next
    case found
    from has_cycle_True_sound(1)[OF found(1)] obtain c where
      c: "(k, c) \<in> (edges graph)\<^sup>*" "(c, c) \<in> (edges graph)\<^sup>+" by auto
    from Cons.IH[OF found(2)] have ih:
      "\<forall>r \<in> circular_ids fs. r \<in> insert k (circular_ids errors)
        \<or> (\<exists>c. (r, c) \<in> (edges graph)\<^sup>* \<and> (c, c) \<in> (edges graph)\<^sup>+)"
      by (simp only: circular_ids_snoc)
    show ?thesis
    proof
      fix r assume "r \<in> circular_ids fs"
      with ih have "r = k \<or> r \<in> circular_ids errors
          \<or> (\<exists>c. (r, c) \<in> (edges graph)\<^sup>* \<and> (c, c) \<in> (edges graph)\<^sup>+)" by blast
      with c show "r \<in> circular_ids errors
          \<or> (\<exists>c. (r, c) \<in> (edges graph)\<^sup>* \<and> (c, c) \<in> (edges graph)\<^sup>+)" by blast
    qed
  next
    case clean
    from Cons.IH[OF clean] show ?thesis .
  qed
qed

lemma trancl_avoiding:
  assumes "(a, b) \<in> E\<^sup>+" "a \<notin> V0" "b \<notin> V0"
  shows "(a, b) \<in> (avoiding E V0)\<^sup>+ \<or> (\<exists>x \<in> V0. (a, x) \<in> E\<^sup>* \<and> (x, b) \<in> E\<^sup>*)"
proof -
  from assms(1) have "b \<notin> V0 \<longrightarrow>
      (a, b) \<in> (avoiding E V0)\<^sup>+ \<or> (\<exists>x \<in> V0. (a, x) \<in> E\<^sup>* \<and> (x, b) \<in> E\<^sup>*)"
  proof (induction rule: trancl_induct)
    case (base y)
    show ?case
    proof
      assume "y \<notin> V0"
      with base assms(2) have "(a, y) \<in> avoiding E V0" by (simp add: avoiding_def)
      then show "(a, y) \<in> (avoiding E V0)\<^sup>+ \<or> (\<exists>x \<in> V0. (a, x) \<in> E\<^sup>* \<and> (x, y) \<in> E\<^sup>*)"
        by blast
    qed
  next
    case (step y z)
    show ?case
    proof
      assume z: "z \<notin> V0"
      show "(a, z) \<in> (avoiding E V0)\<^sup>+ \<or> (\<exists>x \<in> V0. (a, x) \<in> E\<^sup>* \<and> (x, z) \<in> E\<^sup>*)"
      proof (cases "y \<in> V0")
        case True
        from step(1) have "(a, y) \<in> E\<^sup>*" by simp
        moreover from step(2) have "(y, z) \<in> E\<^sup>*" by simp
        ultimately show ?thesis using True by blast
      next
        case False
        with step(3) consider (direct) "(a, y) \<in> (avoiding E V0)\<^sup>+"
          | (via) x where "x \<in> V0" "(a, x) \<in> E\<^sup>*" "(x, y) \<in> E\<^sup>*" by blast
        then show ?thesis
        proof cases
          case direct
          from False z step(2) have "(y, z) \<in> avoiding E V0" by (simp add: avoiding_def)
          with direct have "(a, z) \<in> (avoiding E V0)\<^sup>+" by (rule trancl_into_trancl)
          then show ?thesis by blast
        next
          case via
          from via(3) step(2) have "(x, z) \<in> E\<^sup>*" by (rule rtrancl_into_rtrancl)
          with via(1,2) show ?thesis by blast
        qed
      qed
    qed
  qed
  with assms(3) show ?thesis by blast
qed

text \<open>Every module on a cycle is reached from a reported module.\<close>

lemma cycle_scan_covers:
  "cycle_scan graph modules keys v errors = Inr fs \<Longrightarrow>
     covered (edges graph) v (circular_ids errors) \<Longrightarrow>
     covered (edges graph) (v \<union> set keys) (circular_ids fs)"
proof (induction keys arbitrary: v errors)
  case Nil
  then show ?case by simp
next
  case (Cons k keys)
  let ?E = "edges graph"
  from cycle_scan_Cons_Inr[OF Cons.prems(1)]
  consider (seen) "k \<in> v" "cycle_scan graph modules keys v errors = Inr fs"
    | (found) v' s' m where "k \<notin> v" "has_cycle graph k (v, {}) = Inr (True, v', s')"
        "cycle_scan graph modules keys v'
                 (errors @ [CircularDependency k (get_title m)]) = Inr fs"
    | (clean) v' s' where "k \<notin> v" "has_cycle graph k (v, {}) = Inr (False, v', s')"
        "cycle_scan graph modules keys v' errors = Inr fs"
    by blast
  then show ?case
  proof cases
    case seen
    from Cons.IH[OF seen(2) Cons.prems(2)] have "covered ?E (v \<union> set keys) (circular_ids fs)" .
    moreover from seen(1) have "v \<union> set (k # keys) = v \<union> set keys" by auto
    ultimately show ?thesis by simp
  next
    case found
    from has_cycle_no_error(1)[of graph k v "{}"] found(2) have kv: "insert k v \<subseteq> v'" by auto
    from has_cycle_visits_reachable(1)[OF found(2)] have new: "v' \<subseteq> v \<union> ?E\<^sup>* `` {k}" .
    have "covered ?E v' (insert k (circular_ids errors))"
      unfolding covered_def
    proof (intro ballI impI)
      fix c assume c: "c \<in> v'" "(c, c) \<in> ?E\<^sup>+"
      show "\<exists>r \<in> insert k (circular_ids errors). (r, c) \<in> ?E\<^sup>*"
      proof (cases "c \<in> v")
        case True
        with Cons.prems(2) c(2) show ?thesis unfolding covered_def by blast
      next
        case False
        with new c(1) have "(k, c) \<in> ?E\<^sup>*" by blast
        then show ?thesis by blast
      qed
    qed
    then have "covered ?E v' (circular_ids (errors @ [CircularDependency k (get_title m)]))"
      by (simp only: circular_ids_snoc)
    from Cons.IH[OF found(3) this] have "covered ?E (v' \<union> set keys) (circular_ids fs)" .
    moreover from kv have "v \<union> set (k # keys) \<subseteq> v' \<union> set keys" by auto
    ultimately show ?thesis unfolding covered_def by blast
  next
    case clean
    have start: "dfs_inv ?E v v {}" unfolding dfs_inv_def by simp
    from has_cycle_False_inv(1)[OF clean(2) clean(1) start] have
      inv: "dfs_inv ?E v v' {}" and kv: "k \<in> v'" by simp_all
    from inv have vv: "v \<subseteq> v'"
      and ac: "\<forall>b \<in> v' - v. (b, b) \<notin> (avoiding ?E v)\<^sup>+"
      unfolding dfs_inv_def by auto
    have "covered ?E v' (circular_ids errors)"
      unfolding covered_def
    proof (intro ballI impI)
      fix c assume c: "c \<in> v'" "(c, c) \<in> ?E\<^sup>+"
      show "\<exists>r \<in> circular_ids errors. (r, c) \<in> ?E\<^sup>*"
      proof (cases "c \<in> v")
        case True
        with Cons.prems(2) c(2) show ?thesis unfolding covered_def by blast
      next
        case False
        with c(1) ac have "(c, c) \<notin> (avoiding ?E v)\<^sup>+" by blast
        with trancl_avoiding[OF c(2) False False] obtain x where
          x: "x \<in> v" "(c, x) \<in> ?E\<^sup>*" "(x, c) \<in> ?E\<^sup>*" by blast
        from x(3) c(2) have "(x, c) \<in> ?E\<^sup>+" by (rule rtrancl_trancl_trancl)
        from this x(2) have "(x, x) \<in> ?E\<^sup>+" by (rule trancl_rtrancl_trancl)
        with Cons.prems(2) x(1) obtain r where
          "r \<in> circular_ids errors" "(r, x) \<in> ?E\<^sup>*" unfolding covered_def by blast
        with x(3) show ?thesis by (meson rtrancl_trans)
      qed
    qed
    from Cons.IH[OF clean(3) this] have "covered ?E (v' \<union> set keys) (circular_ids fs)" .
    moreover from vv kv have "v \<union> set (k # keys) \<subseteq> v' \<union> set keys" by auto
    ultimately show ?thesis unfolding covered_def by blast
  qed
qed

lemma set_iteration_remdups: "set_iteration remdups"
  by (simp add: set_iteration_def)

lemma graph_get_build_graph:
  "graph_get (build_graph ord modules) u
     = (case map_of modules u of None \<Rightarrow> [] | Some m \<Rightarrow> ord (get_prerequisites m))"
proof -
  have "map_of (build_graph ord modules) u
      = map_option (\<lambda>m. ord (get_prerequisites m)) (map_of modules u)"
    by (induction modules) (auto simp: build_graph_def)
  then show ?thesis by (simp add: graph_get_def split: option.splits)
qed

lemma edges_build_graph:
  assumes "set_iteration ord" "distinct (map fst modules)"
  shows "edges (build_graph ord modules) = prereq_edges modules"
proof -
  have "(u, w) \<in> edges (build_graph ord modules) \<longleftrightarrow> (u, w) \<in> prereq_edges modules" for u w
  proof -
    have "(u, w) \<in> edges (build_graph ord modules)
        \<longleftrightarrow> (\<exists>m. map_of modules u = Some m \<and> w \<in> set (ord (get_prerequisites m)))"
      by (cases "map_of modules u") (simp_all add: edges_def graph_get_build_graph)
    also have "\<dots> \<longleftrightarrow> (\<exists>m. (u, m) \<in> set modules \<and> w \<in> set (get_prerequisites m))"
      using assms by (auto simp: set_iteration_def)
    finally show ?thesis by (simp add: prereq_edges_iff)
  qed
  then show ?thesis by auto
qed

lemma prereq_edge_key: "(u, w) \<in> prereq_edges modules \<Longrightarrow> u \<in> fst ` set modules"
  by (force simp: prereq_edges_iff)

lemma registry_edges_iff:
  "(u, w) \<in> registry_edges modules
     \<longleftrightarrow> (u, w) \<in> prereq_edges modules \<and> w \<in> fst ` set modules"
  by (simp add: registry_edges_def)

lemma rtrancl_registry_edges:
  assumes "(a, b) \<in> (prereq_edges modules)\<^sup>*" "b \<in> fst ` set modules"
  shows "(a, b) \<in> (registry_edges modules)\<^sup>*"
proof -
  from assms(1) have "b \<in> fst ` set modules \<longrightarrow> (a, b) \<in> (registry_edges modules)\<^sup>*"
  proof (induction rule: rtrancl_induct)
    case base
    then show ?case by simp
  next
    case (step y z)
    show ?case
    proof
      assume z: "z \<in> fst ` set modules"
      from step(2) have "y \<in> fst ` set modules" by (rule prereq_edge_key)
      with step(3) have "(a, y) \<in> (registry_edges modules)\<^sup>*" by simp
      moreover from step(2) z have "(y, z) \<in> registry_edges modules"
        by (simp add: registry_edges_iff)
      ultimately show "(a, z) \<in> (registry_edges modules)\<^sup>*" by (rule rtrancl_into_rtrancl)
    qed
  qed
  with assms(2) show ?thesis by simp
qed

lemma cycle_registry_edges:
  "(c, c) \<in> (registry_edges modules)\<^sup>+ \<longleftrightarrow> (c, c) \<in> (prereq_edges modules)\<^sup>+"
proof
  assume "(c, c) \<in> (registry_edges modules)\<^sup>+"
  moreover have "registry_edges modules \<subseteq> prereq_edges modules"
    by (auto simp: registry_edges_iff)
  ultimately show "(c, c) \<in> (prereq_edges modules)\<^sup>+" by (meson trancl_mono)
next
  assume cyc: "(c, c) \<in> (prereq_edges modules)\<^sup>+"
  then obtain z where z: "(c, z) \<in> prereq_edges modules" "(z, c) \<in> (prereq_edges modules)\<^sup>*"
    by (meson tranclD)
  from z(1) have ck: "c \<in> fst ` set modules" by (rule prereq_edge_key)
  from rtrancl_registry_edges[OF z(2) ck] have zc: "(z, c) \<in> (registry_edges modules)\<^sup>*" .
  have "z \<in> fst ` set modules"
  proof (cases "z = c")
    case True
    with ck show ?thesis by simp
  next
    case False
    with z(2) obtain y where "(z, y) \<in> prereq_edges modules" by (meson converse_rtranclE)
    then show ?thesis by (rule prereq_edge_key)
  qed
  with z(1) have "(c, z) \<in> registry_edges modules" by (simp add: registry_edges_iff)
  with zc show "(c, c) \<in> (registry_edges modules)\<^sup>+" by (meson rtrancl_into_trancl2)
qed

lemma detect_cycles_graph:
  assumes "set_iteration ord" "distinct (map fst modules)"
  shows "\<exists>fs. detect_cycles ord modules = Inr fs
      \<and> (fs = [] \<longleftrightarrow> circular_ids fs = {})
      \<and> (\<forall>r \<in> circular_ids fs. \<exists>c. (r, c) \<in> (prereq_edges modules)\<^sup>*
              \<and> (c, c) \<in> (prereq_edges modules)\<^sup>+)
      \<and> (\<forall>c. (c, c) \<in> (prereq_edges modules)\<^sup>+ \<longrightarrow>
              (\<exists>r \<in> circular_ids fs. (r, c) \<in> (prereq_edges modules)\<^sup>*))"
proof -
  let ?g = "build_graph ord modules"
  from detect_cycles_total[of ord modules] obtain fs where
    fs: "detect_cycles ord modules = Inr fs" by blast
  then have scan: "cycle_scan ?g modules (map fst modules) {} [] = Inr fs"
    by (simp add: detect_cycles_def Let_def build_graph_keys)
  have E: "edges ?g = prereq_edges modules" using assms by (rule edges_build_graph)
  from cycle_scan_only_circular[OF scan] have "\<forall>f \<in> set fs. circular_of f \<noteq> []" by simp
  then have 1: "fs = [] \<longleftrightarrow> circular_ids fs = {}" by (rule nonempty_circular)
  from cycle_scan_sound[OF scan] have
    2: "\<forall>r \<in> circular_ids fs. \<exists>c. (r, c) \<in> (prereq_edges modules)\<^sup>*
              \<and> (c, c) \<in> (prereq_edges modules)\<^sup>+"
    unfolding E by (simp add: circular_ids_def)
  have "covered (edges ?g) {} (circular_ids [])" by (simp add: covered_def)
  from cycle_scan_covers[OF scan this] have
    cov: "covered (prereq_edges modules) (fst ` set modules) (circular_ids fs)"
    unfolding E by simp
  have 3: "\<forall>c. (c, c) \<in> (prereq_edges modules)\<^sup>+ \<longrightarrow>
              (\<exists>r \<in> circular_ids fs. (r, c) \<in> (prereq_edges modules)\<^sup>*)"
  proof (intro allI impI)
    fix c assume c: "(c, c) \<in> (prereq_edges modules)\<^sup>+"
    then obtain z where "(c, z) \<in> prereq_edges modules" by (meson tranclD)
    then have "c \<in> fst ` set modules" by (rule prereq_edge_key)
    with cov c show "\<exists>r \<in> circular_ids fs. (r, c) \<in> (prereq_edges modules)\<^sup>*"
      unfolding covered_def by blast
  qed
  from fs 1 2 3 show ?thesis by blast
qed

section \<open>Cycle findings\<close>

text \<open>
  C1, as the code has it. For a registry with distinct ids, whatever the order in which
  the prerequisite sets are iterated: cycle detection returns no finding if and only if
  the prerequisite graph over the registry's ids has no cycle; when there is a cycle at
  least one module is reported; and every reported module reaches a module on a cycle
  by zero or more prerequisite hops. The reported module is the one the traversal
  started from, which need not lie on the cycle itself.
\<close>

theorem cycle_findings_empty_iff_acyclic:
  assumes "set_iteration ord" "distinct (map fst modules)"
  shows "\<exists>fs. detect_cycles ord modules = Inr fs
     \<and> (fs = [] \<longleftrightarrow> (\<forall>c. (c, c) \<notin> (registry_edges modules)\<^sup>+))
     \<and> ((\<exists>c. (c, c) \<in> (registry_edges modules)\<^sup>+) \<longrightarrow> circular_ids fs \<noteq> {})
     \<and> (\<forall>r \<in> circular_ids fs. \<exists>c. (r, c) \<in> (registry_edges modules)\<^sup>*
            \<and> (c, c) \<in> (registry_edges modules)\<^sup>+)"
proof -
  from detect_cycles_graph[OF assms] obtain fs where
    fs: "detect_cycles ord modules = Inr fs"
    and e: "fs = [] \<longleftrightarrow> circular_ids fs = {}"
    and s: "\<forall>r \<in> circular_ids fs. \<exists>c. (r, c) \<in> (prereq_edges modules)\<^sup>*
              \<and> (c, c) \<in> (prereq_edges modules)\<^sup>+"
    and c: "\<forall>c. (c, c) \<in> (prereq_edges modules)\<^sup>+ \<longrightarrow>
              (\<exists>r \<in> circular_ids fs. (r, c) \<in> (prereq_edges modules)\<^sup>*)"
    by blast
  have s': "\<forall>r \<in> circular_ids fs. \<exists>c. (r, c) \<in> (registry_edges modules)\<^sup>*
            \<and> (c, c) \<in> (registry_edges modules)\<^sup>+"
  proof
    fix r assume "r \<in> circular_ids fs"
    with s obtain c where rc: "(r, c) \<in> (prereq_edges modules)\<^sup>*"
      and cc: "(c, c) \<in> (prereq_edges modules)\<^sup>+" by blast
    from cc obtain z where "(c, z) \<in> prereq_edges modules" by (meson tranclD)
    then have "c \<in> fst ` set modules" by (rule prereq_edge_key)
    from rtrancl_registry_edges[OF rc this] cc
    show "\<exists>c. (r, c) \<in> (registry_edges modules)\<^sup>* \<and> (c, c) \<in> (registry_edges modules)\<^sup>+"
      by (auto simp: cycle_registry_edges)
  qed
  have c': "(\<exists>c. (c, c) \<in> (registry_edges modules)\<^sup>+) \<longrightarrow> circular_ids fs \<noteq> {}"
    using c by (auto simp: cycle_registry_edges)
  have "fs = [] \<longleftrightarrow> (\<forall>c. (c, c) \<notin> (registry_edges modules)\<^sup>+)"
  proof
    assume "fs = []"
    with e c' show "\<forall>c. (c, c) \<notin> (registry_edges modules)\<^sup>+" by blast
  next
    assume "\<forall>c. (c, c) \<notin> (registry_edges modules)\<^sup>+"
    with s' have "circular_ids fs = {}" by blast
    with e show "fs = []" by simp
  qed
  with fs c' s' show ?thesis by blast
qed

theorem cycle_findings_empty_iff_acyclic_witness:
  "set_iteration remdups
   \<and> distinct (map fst [(0::int, bare_module []), (1, bare_module [0]), (2, bare_module [0, 1])])
   \<and> detect_cycles remdups [(0, bare_module []), (1, bare_module [0]), (2, bare_module [0, 1])]
       = Inr []
   \<and> (\<forall>c. (c, c) \<notin> (registry_edges
          [(0, bare_module []), (1, bare_module [0]), (2, bare_module [0, 1])])\<^sup>+)"
proof -
  let ?M = "[(0::int, bare_module []), (1, bare_module [0]), (2, bare_module [0, 1])]"
  have d: "distinct (map fst ?M)" by simp
  have e: "detect_cycles remdups ?M = Inr []" by code_simp
  from cycle_findings_empty_iff_acyclic[OF set_iteration_remdups d] e
  have "\<forall>c. (c, c) \<notin> (registry_edges ?M)\<^sup>+" by auto
  with set_iteration_remdups d e show ?thesis by blast
qed

text \<open>
  C1 as stated fails in its second half: in \<open>{0: [1], 1: [2], 2: [1]}\<close> the only
  reported module is 0, which lies on no cycle (the cycle is between 1 and 2). Every
  prerequisite list here has one entry, so the iteration order plays no part.
\<close>

theorem reported_module_off_cycle:
  "detect_cycles remdups [(0, bare_module [1]), (1, bare_module [2]), (2, bare_module [1])]
     = Inr [CircularDependency 0 ''Unknown'']
   \<and> circular_ids [CircularDependency 0 ''Unknown''] = {0}
   \<and> (1, 1) \<in> (registry_edges
        [(0, bare_module [1]), (1, bare_module [2]), (2, bare_module [1])])\<^sup>+
   \<and> (0, 0) \<notin> (registry_edges
        [(0, bare_module [1]), (1, bare_module [2]), (2, bare_module [1])])\<^sup>+"
  by code_simp

text \<open>
  C5, as the code has it. For a registry with distinct ids, whatever the iteration order
  of the prerequisite sets: every module that lies on a cycle is reached, by zero or
  more prerequisite hops, from a module named in a circular-dependency finding. The
  module itself need not be named.
\<close>

theorem cycle_members_are_covered:
  assumes "set_iteration ord" "distinct (map fst modules)"
  shows "\<exists>fs. detect_cycles ord modules = Inr fs
     \<and> (\<forall>c. (c, c) \<in> (registry_edges modules)\<^sup>+ \<longrightarrow>
            (\<exists>r \<in> circular_ids fs. (r, c) \<in> (registry_edges modules)\<^sup>*))"
proof -
  from detect_cycles_graph[OF assms] obtain fs where
    fs: "detect_cycles ord modules = Inr fs"
    and c: "\<forall>c. (c, c) \<in> (prereq_edges modules)\<^sup>+ \<longrightarrow>
              (\<exists>r \<in> circular_ids fs. (r, c) \<in> (prereq_edges modules)\<^sup>*)"
    by blast
  have "\<forall>c. (c, c) \<in> (registry_edges modules)\<^sup>+ \<longrightarrow>
            (\<exists>r \<in> circular_ids fs. (r, c) \<in> (registry_edges modules)\<^sup>*)"
  proof (intro allI impI)
    fix x assume "(x, x) \<in> (registry_edges modules)\<^sup>+"
    then have cc: "(x, x) \<in> (prereq_edges modules)\<^sup>+" by (simp add: cycle_registry_edges)
    with c obtain r where r: "r \<in> circular_ids fs" "(r, x) \<in> (prereq_edges modules)\<^sup>*"
      by blast
    from cc obtain z where "(x, z) \<in> prereq_edges modules" by (meson tranclD)
    then have "x \<in> fst ` set modules" by (rule prereq_edge_key)
    from rtrancl_registry_edges[OF r(2) this] r(1)
    show "\<exists>r \<in> circular_ids fs. (r, x) \<in> (registry_edges modules)\<^sup>*" by blast
  qed
  with fs show ?thesis by blast
qed

theorem cycle_members_are_covered_witness:
  "set_iteration remdups
   \<and> distinct (map fst [(0::int, bare_module [1]), (1, bare_module [0]),
                        (2, bare_module [3]), (3, bare_module [2])])
   \<and> detect_cycles remdups [(0, bare_module [1]), (1, bare_module [0]),
                             (2, bare_module [3]), (3, bare_module [2])]
       = Inr [CircularDependency 0 ''Unknown'', CircularDependency 2 ''Unknown'']
   \<and> (3, 3) \<in> (registry_edges [(0, bare_module [1]), (1, bare_module [0]),
                             (2, bare_module [3]), (3, bare_module [2])])\<^sup>+
   \<and> ((0, 3) \<in> (registry_edges [(0, bare_module [1]), (1, bare_module [0]),
                             (2, bare_module [3]), (3, bare_module [2])])\<^sup>*
      \<or> (2, 3) \<in> (registry_edges [(0, bare_module [1]), (1, bare_module [0]),
                             (2, bare_module [3]), (3, bare_module [2])])\<^sup>* )"
proof -
  let ?M = "[(0::int, bare_module [1]), (1, bare_module [0]),
             (2, bare_module [3]), (3, bare_module [2])]"
  have d: "distinct (map fst ?M)" by simp
  have e: "detect_cycles remdups ?M
      = Inr [CircularDependency 0 ''Unknown'', CircularDependency 2 ''Unknown'']" by code_simp
  have c: "(3, 3) \<in> (registry_edges ?M)\<^sup>+" by code_simp
  have i: "circular_ids [CircularDependency 0 ''Unknown'', CircularDependency 2 ''Unknown'']
      = {0, 2}" by (simp add: circular_ids_def)
  from cycle_members_are_covered[OF set_iteration_remdups d] e c i
  have "(0, 3) \<in> (registry_edges ?M)\<^sup>* \<or> (2, 3) \<in> (registry_edges ?M)\<^sup>*" by auto
  with set_iteration_remdups d e c show ?thesis by blast
qed

text \<open>
  C5 as stated fails: in \<open>{0: [1], 1: [0]}\<close> module 1 lies on a cycle and only module
  0 is reported, because the traversal from 0 has already visited 1.
\<close>

theorem cycle_member_not_reported:
  "detect_cycles remdups [(0, bare_module [1]), (1, bare_module [0])]
     = Inr [CircularDependency 0 ''Unknown'']
   \<and> (1, 1) \<in> (registry_edges [(0, bare_module [1]), (1, bare_module [0])])\<^sup>+
   \<and> 1 \<notin> circular_ids [CircularDependency 0 ''Unknown'']"
  by code_simp

section \<open>Dangling prerequisites\<close>
















end
